theory Spec2Isabelle
  imports Main
begin

section \<open>Data model of \<open>src/components/maze-runner.tsx\<close>\<close>

text \<open>
  The component keeps its state in React \<open>useState\<close> cells and changes it in event
  handlers. Each handler is modelled as a function from the state to the new state, and a
  run of the component as a sequence of events on the state and the replays in flight. A
  JavaScript \<open>TypeError\<close> (reading a property of \<open>undefined\<close>) is the value
  \<open>Inl TypeError\<close>. Strings are lists of characters, one \<open>char\<close> standing for one
  UTF-16 code unit of the source string; the code units are those below 256 (Latin-1).
\<close>

datatype error = TypeError

datatype CellType = Wall | Path | Start | End

text \<open>\<open>type Cell = { x: number, y: number, type: ... }\<close> (lines 11-15).\<close>

record Cell =
  cellX :: nat
  cellY :: nat
  cellType :: CellType

datatype Direction = Up | Down | Left | Right

text \<open>The \<open>moveKeys\<close> object (line 29).\<close>

record MoveKeys =
  up :: string
  down :: string
  left :: string
  right :: string

text \<open>
  The state cells of lines 20-33. The source's \<open>end\<close> is \<open>endCell\<close> here; \<open>cellSize\<close>
  (pixels, computed from the DOM container) is presentation only and left out.
\<close>

record State =
  maze :: "string list"
  mazeGrid :: "Cell list list"
  start :: "Cell option"
  endCell :: "Cell option"
  currentPos :: "Cell option"
  wallSymbol :: string
  pathSymbol :: string
  startSymbol :: string
  endSymbol :: string
  moveKeys :: MoveKeys
  isAnimating :: bool
  solutionMoves :: string
  isMazeGenerated :: bool

definition initialState :: State where
  "initialState =
     \<lparr>maze = [], mazeGrid = [], start = None, endCell = None, currentPos = None,
      wallSymbol = ''#'', pathSymbol = ''.'', startSymbol = ''P'', endSymbol = ''E'',
      moveKeys = \<lparr>up = ''w'', down = ''s'', left = ''a'', right = ''d''\<rparr>,
      isAnimating = False, solutionMoves = '''', isMazeGenerated = False\<rparr>"

text \<open>An entry of the search queue: \<open>{ cell: Cell; path: Cell[]; moves: string[] }\<close> (line 85).\<close>

record entry =
  cell :: Cell
  path :: "Cell list"
  moves :: "string list"

section \<open>Neighbours and key bindings\<close>

text \<open>
  \<open>mazeGrid[i][j]\<close>: a missing row makes the second index a \<open>TypeError\<close>; a missing column
  gives \<open>undefined\<close>. The callers only test the result for truthiness, so \<open>undefined\<close> and
  \<open>null\<close> are both \<open>None\<close>.
\<close>

definition index2 :: "Cell list list \<Rightarrow> nat \<Rightarrow> nat \<Rightarrow> error + Cell option" where
  "index2 g i j =
     (if i < length g
      then Inr (if j < length (g ! i) then Some (g ! i ! j) else None)
      else Inl TypeError)"

text \<open>\<open>getNextCell\<close> (lines 49-61). The horizontal bound is the length of row 0.\<close>

definition getNextCell :: "Cell list list \<Rightarrow> Cell \<Rightarrow> Direction \<Rightarrow> error + Cell option" where
  "getNextCell g c direction =
     (let x = cellX c; y = cellY c in
      case direction of
        Up \<Rightarrow> if y > 0 then index2 g (y - 1) x else Inr None
      | Down \<Rightarrow> if int y < int (length g) - 1 then index2 g (y + 1) x else Inr None
      | Left \<Rightarrow> if x > 0 then index2 g y (x - 1) else Inr None
      | Right \<Rightarrow>
          if g = [] then Inl TypeError
          else if int x < int (length (g ! 0)) - 1 then index2 g y (x + 1) else Inr None)"

text \<open>\<open>getKeyForDirection\<close> (lines 63-70).\<close>

definition getKeyForDirection :: "MoveKeys \<Rightarrow> Direction \<Rightarrow> string" where
  "getKeyForDirection mk direction =
     (case direction of Up \<Rightarrow> up mk | Down \<Rightarrow> down mk | Left \<Rightarrow> left mk | Right \<Rightarrow> right mk)"

section \<open>Building the grid\<close>

text \<open>The cell type of a character (line 119): the character as a one-character string is
  compared with the symbols, wall first, then start, then end.\<close>

definition classify :: "string \<Rightarrow> string \<Rightarrow> string \<Rightarrow> char \<Rightarrow> CellType" where
  "classify wallS startS endS ch =
     (if [ch] = wallS then Wall
      else if [ch] = startS then Start
      else if [ch] = endS then End
      else Path)"

text \<open>The grid of lines 115-121: \<open>maze.map((row, y) => row.split('').map((cell, x) => ...))\<close>.\<close>

definition buildGrid :: "string list \<Rightarrow> string \<Rightarrow> string \<Rightarrow> string \<Rightarrow> Cell list list" where
  "buildGrid mz wallS startS endS =
     map (\<lambda>(y, row).
            map (\<lambda>(x, ch). \<lparr>cellX = x, cellY = y, cellType = classify wallS startS endS ch\<rparr>)
                (enumerate 0 row))
         (enumerate 0 mz)"

text \<open>The effect of lines 113-130, run after every change of the maze text or of the wall,
  start or end symbol. \<open>grid.flat().find(...) || null\<close> is \<open>find\<close> on \<open>concat\<close>.\<close>

definition gridEffect :: "State \<Rightarrow> State" where
  "gridEffect s =
     (if length (maze s) > 0 then
        let grid = buildGrid (maze s) (wallSymbol s) (startSymbol s) (endSymbol s) in
        s\<lparr>mazeGrid := grid,
          start := find (\<lambda>c. cellType c = Start) (concat grid),
          endCell := find (\<lambda>c. cellType c = End) (concat grid),
          isMazeGenerated := True\<rparr>
      else s\<lparr>isMazeGenerated := False\<rparr>)"

text \<open>\<open>value.split('\n')\<close>: the lines of a text; a text without a newline is one line.\<close>

fun split_newline :: "string \<Rightarrow> string list" where
  "split_newline [] = [[]]"
| "split_newline (c # cs) =
     (if c = CHR 0x0A then [] # split_newline cs
      else (case split_newline cs of
              [] \<Rightarrow> [[c]]
            | l # ls \<Rightarrow> (c # l) # ls))"

text \<open>\<open>handleMazeInput\<close> (lines 137-139), followed by the effect it triggers.\<close>

definition handleMazeInput :: "string \<Rightarrow> State \<Rightarrow> State" where
  "handleMazeInput text s = gridEffect (s\<lparr>maze := split_newline text\<rparr>)"

text \<open>
  \<open>String.prototype.toLowerCase\<close>. Among the code units below 256 the upper-case letters
  are U+0041 to U+005A and U+00C0 to U+00DE without the multiplication sign U+00D7; each
  has its lower-case letter 32 places further, and every other code unit is left as it
  is.
\<close>

definition toLowerCase :: "string \<Rightarrow> string" where
  "toLowerCase str =
     map (\<lambda>c. let n = (of_char c :: nat) in
               if (65 \<le> n \<and> n \<le> 90) \<or> (192 \<le> n \<and> n \<le> 222 \<and> n \<noteq> 215)
               then char_of (n + 32) else c) str"

text \<open>The \<open>onChange\<close> handler of a move-key field (line 295):
  \<open>setMoveKeys({ ...moveKeys, [direction]: e.target.value.toLowerCase() })\<close>.\<close>

definition setMoveKey :: "Direction \<Rightarrow> string \<Rightarrow> State \<Rightarrow> State" where
  "setMoveKey direction v s =
     (let k = toLowerCase v; mk = moveKeys s in
      s\<lparr>moveKeys :=
          (case direction of
             Up \<Rightarrow> mk\<lparr>up := k\<rparr>
           | Down \<Rightarrow> mk\<lparr>down := k\<rparr>
           | Left \<Rightarrow> mk\<lparr>left := k\<rparr>
           | Right \<Rightarrow> mk\<lparr>right := k\<rparr>)\<rparr>)"

text \<open>
  The \<open>onChange\<close> handlers of the symbol fields (lines 186, 198, 210 and 222). The effect
  depends on the wall, start and end symbols and runs after they change; it does not
  depend on the path symbol.
\<close>

definition setWallSymbol :: "string \<Rightarrow> State \<Rightarrow> State" where
  "setWallSymbol v s = gridEffect (s\<lparr>wallSymbol := v\<rparr>)"

definition setPathSymbol :: "string \<Rightarrow> State \<Rightarrow> State" where
  "setPathSymbol v s = s\<lparr>pathSymbol := v\<rparr>"

definition setStartSymbol :: "string \<Rightarrow> State \<Rightarrow> State" where
  "setStartSymbol v s = gridEffect (s\<lparr>startSymbol := v\<rparr>)"

definition setEndSymbol :: "string \<Rightarrow> State \<Rightarrow> State" where
  "setEndSymbol v s = gridEffect (s\<lparr>endSymbol := v\<rparr>)"

section \<open>Replay\<close>

text \<open>
  \<open>animatePath\<close> (lines 72-79) is an \<open>async\<close> function: it runs up to its first \<open>await\<close> inside
  the caller and is resumed by a timer for each further cell. \<open>animatePath_resume cs s\<close> is
  one such run from the loop head with the cells \<open>cs\<close> still to apply: it returns the new
  state and \<open>Some\<close> of the cells left when it suspends at the \<open>await\<close>, or \<open>None\<close> when the
  function has finished.
\<close>

fun animatePath_resume :: "Cell list \<Rightarrow> State \<Rightarrow> State \<times> Cell list option" where
  "animatePath_resume [] s = (s\<lparr>isAnimating := False\<rparr>, None)"
| "animatePath_resume (c # cs) s = (s\<lparr>currentPos := Some c\<rparr>, Some cs)"

definition animatePath :: "Cell list \<Rightarrow> State \<Rightarrow> State \<times> Cell list option" where
  "animatePath p s = animatePath_resume p (s\<lparr>isAnimating := True\<rparr>)"

text \<open>The states a suspended replay goes through when nothing else runs in between: the
  state after each resumption, up to and including the one that clears \<open>isAnimating\<close>.\<close>

fun replay_rest :: "Cell list \<Rightarrow> State \<Rightarrow> State list" where
  "replay_rest [] s = [fst (animatePath_resume [] s)]"
| "replay_rest (c # cs) s =
     (let s' = fst (animatePath_resume (c # cs) s) in s' # replay_rest cs s')"

section \<open>The search of \<open>solveMaze\<close>\<close>

text \<open>
  \<open>visited[y][x]\<close> read for truthiness: a missing row is a \<open>TypeError\<close>, a missing column is
  \<open>undefined\<close>, which is falsy.
\<close>

definition visited_get :: "bool list list \<Rightarrow> nat \<Rightarrow> nat \<Rightarrow> error + bool" where
  "visited_get v y x =
     (if y < length v
      then Inr (if x < length (v ! y) then v ! y ! x else False)
      else Inl TypeError)"

text \<open>\<open>visited[y][x] = true\<close> on an existing row: a write past the end of the row extends
  it, the holes reading as \<open>undefined\<close> (falsy).\<close>

definition visited_set :: "bool list list \<Rightarrow> nat \<Rightarrow> nat \<Rightarrow> bool list list" where
  "visited_set v y x =
     v[y := (let row = v ! y in
             if x < length row then row[x := True]
             else row @ replicate (x - length row) False @ [True])]"

definition directions :: "Direction list" where
  "directions = [Up, Down, Left, Right]"

text \<open>The \<open>for\<close> loop of lines 97-107 over the directions still to try, on the queue and the
  visited matrix.\<close>

fun explore ::
  "Cell list list \<Rightarrow> MoveKeys \<Rightarrow> entry \<Rightarrow> Direction list \<Rightarrow> entry list \<Rightarrow> bool list list
     \<Rightarrow> error + (entry list \<times> bool list list)" where
  "explore g mk e [] queue visited = Inr (queue, visited)"
| "explore g mk e (direction # ds) queue visited =
     (case getNextCell g (cell e) direction of
        Inl err \<Rightarrow> Inl err
      | Inr None \<Rightarrow> explore g mk e ds queue visited
      | Inr (Some newCell) \<Rightarrow>
          (case visited_get visited (cellY newCell) (cellX newCell) of
             Inl err \<Rightarrow> Inl err
           | Inr seen \<Rightarrow>
               if \<not> seen \<and> cellType newCell \<noteq> Wall
               then explore g mk e ds
                      (queue @ [\<lparr>cell = newCell, path = path e @ [newCell],
                                 moves = moves e @ [getKeyForDirection mk direction]\<rparr>])
                      (visited_set visited (cellY newCell) (cellX newCell))
               else explore g mk e ds queue visited))"

text \<open>
  The \<open>while\<close> loop of lines 87-108. The result is \<open>Some (path, moves)\<close> when a dequeued
  cell has the coordinates of \<open>en\<close> (lines 90-94) and \<open>None\<close> when the queue runs empty
  (line 110). The last argument is not in the source: it logs the entries taken by
  \<open>queue.shift()\<close>, in order, and is returned with the result.
\<close>

function whileLoop ::
  "Cell list list \<Rightarrow> MoveKeys \<Rightarrow> Cell \<Rightarrow> entry list \<Rightarrow> bool list list \<Rightarrow> entry list
     \<Rightarrow> error + (entry list \<times> (Cell list \<times> string list) option)" where
  "whileLoop g mk en queue visited log =
     (case queue of
        [] \<Rightarrow> Inr (log, None)
      | e # rest \<Rightarrow>
          if cellX (cell e) = cellX en \<and> cellY (cell e) = cellY en
          then Inr (log @ [e], Some (path e, moves e))
          else (case explore g mk e directions rest visited of
                  Inl err \<Rightarrow> Inl err
                | Inr (queue', visited') \<Rightarrow> whileLoop g mk en queue' visited' (log @ [e])))"
  by pat_completeness auto

text \<open>Lines 84-108: the visited matrix has the shape of the maze text and is all
  \<open>false\<close>; the queue holds the start cell, which is not marked.\<close>

definition search ::
  "State \<Rightarrow> Cell \<Rightarrow> Cell \<Rightarrow> error + (entry list \<times> (Cell list \<times> string list) option)" where
  "search s st en =
     whileLoop (mazeGrid s) (moveKeys s) en
       [\<lparr>cell = st, path = [st], moves = []\<rparr>]
       (map (\<lambda>row. map (\<lambda>_. False) row) (maze s))
       []"

text \<open>
  What a call of \<open>solveMaze\<close> did besides changing the state: nothing (the \<open>return\<close> of line
  82), a replay started on a path with the move string stored (lines 91-93), or the
  \<open>alert\<close> of line 110.
\<close>

datatype outcome = NoOp | Found "Cell list" string | Alert string

text \<open>\<open>solveMaze\<close> (lines 81-111). The state returned is the one at the end of the call: the
  replay has run up to its first \<open>await\<close>, and \<open>moves.join('')\<close> is stored.\<close>

definition solveMaze :: "State \<Rightarrow> error + (State \<times> outcome)" where
  "solveMaze s =
     (case start s of
        None \<Rightarrow> Inr (s, NoOp)
      | Some st \<Rightarrow>
          (case endCell s of
             None \<Rightarrow> Inr (s, NoOp)
           | Some en \<Rightarrow>
               (case search s st en of
                  Inl err \<Rightarrow> Inl err
                | Inr (log, Some (p, ms)) \<Rightarrow>
                    Inr ((fst (animatePath p s))\<lparr>solutionMoves := concat ms\<rparr>, Found p (concat ms))
                | Inr (log, None) \<Rightarrow> Inr (s, Alert ''No path found!''))))"

text \<open>The states after a call of \<open>solveMaze\<close> and after each later resumption of the replay
  it started, when nothing else runs in between.\<close>

definition solveMaze_run :: "State \<Rightarrow> error + State list" where
  "solveMaze_run s =
     (case solveMaze s of
        Inl err \<Rightarrow> Inl err
      | Inr (s1, Found p m) \<Rightarrow>
          Inr (s1 # (case snd (animatePath p s) of None \<Rightarrow> [] | Some cs \<Rightarrow> replay_rest cs s1))
      | Inr (s1, _) \<Rightarrow> Inr [s1])"

section \<open>Manual moves\<close>

text \<open>\<open>handleKeyPress\<close> (lines 141-158), on the \<open>key\<close> of the event.\<close>

definition keyDirection :: "MoveKeys \<Rightarrow> string \<Rightarrow> Direction option" where
  "keyDirection mk key =
     (if key = up mk then Some Up
      else if key = down mk then Some Down
      else if key = left mk then Some Left
      else if key = right mk then Some Right
      else None)"

definition handleKeyPress :: "string \<Rightarrow> State \<Rightarrow> error + State" where
  "handleKeyPress eventKey s =
     (if isAnimating s then Inr s
      else
        (case keyDirection (moveKeys s) (toLowerCase eventKey) of
           None \<Rightarrow> Inr s
         | Some direction \<Rightarrow>
             (case currentPos s of
                None \<Rightarrow> Inr s
              | Some cur \<Rightarrow>
                  (case getNextCell (mazeGrid s) cur direction of
                     Inl err \<Rightarrow> Inl err
                   | Inr None \<Rightarrow> Inr s
                   | Inr (Some nextCell) \<Rightarrow>
                       if cellType nextCell \<noteq> Wall then Inr (s\<lparr>currentPos := Some nextCell\<rparr>)
                       else Inr s))))"

text \<open>
  A sequence of key events. A handler that throws has set no state, so the state is as it
  was and the next event is handled; the result is the last state with the errors thrown,
  in order.
\<close>

fun handleKeyPresses :: "string list \<Rightarrow> State \<Rightarrow> State \<times> error list" where
  "handleKeyPresses [] s = (s, [])"
| "handleKeyPresses (k # ks) s =
     (case handleKeyPress k s of
        Inl err \<Rightarrow> (case handleKeyPresses ks s of (s', errs) \<Rightarrow> (s', err # errs))
      | Inr s1 \<Rightarrow> handleKeyPresses ks s1)"

section \<open>Events and replays in flight\<close>

text \<open>
  The events the component handles: a click on the solve button, the timer of a suspended
  replay, a key press, and a change of the maze text, of a symbol or of a move key.
\<close>

datatype event =
    SolveClick
  | Timer nat
  | KeyDown string
  | MazeInput string
  | WallSymbolInput string
  | PathSymbolInput string
  | StartSymbolInput string
  | EndSymbolInput string
  | MoveKeyInput Direction string

text \<open>
  The component with its replays in flight: the state and, for every call of
  \<open>animatePath\<close> suspended at its \<open>await\<close>, the cells it has still to apply, the oldest call
  first. \<open>Timer k\<close> resumes the call at index \<open>k\<close>; a call that finishes leaves the list.
  A handler that throws leaves the state as it was.
\<close>

type_synonym session = "State \<times> Cell list list"

fun fire :: "event \<Rightarrow> session \<Rightarrow> session" where
  "fire SolveClick (s, pending) =
     (case solveMaze s of
        Inl err \<Rightarrow> (s, pending)
      | Inr (s', Found p m) \<Rightarrow>
          (s', pending @ (case snd (animatePath p s) of None \<Rightarrow> [] | Some cs \<Rightarrow> [cs]))
      | Inr (s', _) \<Rightarrow> (s', pending))"
| "fire (Timer k) (s, pending) =
     (if k < length pending
      then (case animatePath_resume (pending ! k) s of
              (s', None) \<Rightarrow> (s', take k pending @ drop (Suc k) pending)
            | (s', Some cs) \<Rightarrow> (s', pending[k := cs]))
      else (s, pending))"
| "fire (KeyDown key) (s, pending) =
     (case handleKeyPress key s of Inl err \<Rightarrow> (s, pending) | Inr s' \<Rightarrow> (s', pending))"
| "fire (MazeInput v) (s, pending) = (handleMazeInput v s, pending)"
| "fire (WallSymbolInput v) (s, pending) = (setWallSymbol v s, pending)"
| "fire (PathSymbolInput v) (s, pending) = (setPathSymbol v s, pending)"
| "fire (StartSymbolInput v) (s, pending) = (setStartSymbol v s, pending)"
| "fire (EndSymbolInput v) (s, pending) = (setEndSymbol v s, pending)"
| "fire (MoveKeyInput direction v) (s, pending) = (setMoveKey direction v s, pending)"

section \<open>Notions of the specification\<close>

text \<open>The state after the effect of lines 113-130 has run on the current text and symbols.\<close>

definition synced :: "State \<Rightarrow> bool" where
  "synced s \<longleftrightarrow>
     mazeGrid s = buildGrid (maze s) (wallSymbol s) (startSymbol s) (endSymbol s) \<and>
     start s = find (\<lambda>c. cellType c = Start) (concat (mazeGrid s)) \<and>
     endCell s = find (\<lambda>c. cellType c = End) (concat (mazeGrid s))"

text \<open>No line of the maze text is longer than the first; every rectangular text is so.\<close>

definition rows_within_first :: "string list \<Rightarrow> bool" where
  "rows_within_first mz = list_all (\<lambda>row. length row \<le> length (hd mz)) mz"

text \<open>Two positions one step apart, up, down, left or right.\<close>

definition adjacent :: "Cell \<Rightarrow> Cell \<Rightarrow> bool" where
  "adjacent a b \<longleftrightarrow>
     (cellX a = cellX b \<and> (cellY a = cellY b + 1 \<or> cellY b = cellY a + 1)) \<or>
     (cellY a = cellY b \<and> (cellX a = cellX b + 1 \<or> cellX b = cellX a + 1))"

text \<open>A walk: a non-empty sequence of cells of the grid, none a wall, each one step from
  the one before.\<close>

fun walk :: "Cell list list \<Rightarrow> Cell list \<Rightarrow> bool" where
  "walk g [] = False"
| "walk g [c] = (c \<in> set (concat g) \<and> cellType c \<noteq> Wall)"
| "walk g (a # b # r) = (a \<in> set (concat g) \<and> cellType a \<noteq> Wall \<and> adjacent a b \<and> walk g (b # r))"

text \<open>The direction of the step from \<open>a\<close> to \<open>b\<close>; \<open>y\<close> grows downwards.\<close>

definition step_direction :: "Cell \<Rightarrow> Cell \<Rightarrow> Direction option" where
  "step_direction a b =
     (if cellX b = cellX a \<and> cellY b + 1 = cellY a then Some Up
      else if cellX b = cellX a \<and> cellY b = cellY a + 1 then Some Down
      else if cellY b = cellY a \<and> cellX b + 1 = cellX a then Some Left
      else if cellY b = cellY a \<and> cellX b = cellX a + 1 then Some Right
      else None)"

text \<open>The graph distance between two cells: the least number of steps of a walk from the
  one to the other.\<close>

definition distance :: "Cell list list \<Rightarrow> Cell \<Rightarrow> Cell \<Rightarrow> nat" where
  "distance g a b = (LEAST n. \<exists>w. walk g w \<and> hd w = a \<and> last w = b \<and> length w = Suc n)"

text \<open>The key bindings the specification's data model has: one character each.\<close>

definition single_char_keys :: "MoveKeys \<Rightarrow> bool" where
  "single_char_keys mk \<longleftrightarrow>
     length (up mk) = 1 \<and> length (down mk) = 1 \<and> length (left mk) = 1 \<and> length (right mk) = 1"

text \<open>The designated cell of a kind, in the words of the specification: the first cell in
  row-major order that has the kind, and none when no cell has it.\<close>

definition first_of_kind :: "Cell list list \<Rightarrow> CellType \<Rightarrow> Cell option \<Rightarrow> bool" where
  "first_of_kind g k r =
     (case r of
        None \<Rightarrow> \<forall>y \<in> {..<length g}. \<forall>x \<in> {..<length (g ! y)}. cellType (g ! y ! x) \<noteq> k
      | Some c \<Rightarrow>
          \<exists>y \<in> {..<length g}. \<exists>x \<in> {..<length (g ! y)}.
            c = g ! y ! x \<and> cellType c = k \<and>
            (\<forall>y' \<in> {..y}. \<forall>x' \<in> {..<length (g ! y')}.
               y' < y \<or> x' < x \<longrightarrow> cellType (g ! y' ! x') \<noteq> k))"

text \<open>The position next to a cell in a direction, when its coordinates are not negative.\<close>

definition neighbour :: "Cell \<Rightarrow> Direction \<Rightarrow> (nat \<times> nat) option" where
  "neighbour c d =
     (case d of
        Up \<Rightarrow> if cellY c = 0 then None else Some (cellX c, cellY c - 1)
      | Down \<Rightarrow> Some (cellX c, cellY c + 1)
      | Left \<Rightarrow> if cellX c = 0 then None else Some (cellX c - 1, cellY c)
      | Right \<Rightarrow> Some (cellX c + 1, cellY c))"

text \<open>
  \<open>manualMove\<close> in the words of the specification (section 4.3): nothing while a replay is
  in progress; otherwise the key is mapped to a direction, and the neighbour in that
  direction becomes the current position if it lies within the grid and is not a wall.
\<close>

definition manualMove_spec :: "string \<Rightarrow> State \<Rightarrow> State" where
  "manualMove_spec key s =
     (if isAnimating s then s
      else
        (case keyDirection (moveKeys s) (toLowerCase key) of
           None \<Rightarrow> s
         | Some d \<Rightarrow>
             (case currentPos s of
                None \<Rightarrow> s
              | Some c \<Rightarrow>
                  (case neighbour c d of
                     None \<Rightarrow> s
                   | Some (x, y) \<Rightarrow>
                       if y < length (mazeGrid s) \<and> x < length (mazeGrid s ! y) \<and>
                          cellType (mazeGrid s ! y ! x) \<noteq> Wall
                       then s\<lparr>currentPos := Some (mazeGrid s ! y ! x)\<rparr>
                       else s))))"

text \<open>The cursor is unset or in a row of the grid: its \<open>y\<close> is the index of a row.\<close>

definition cursor_row_in_grid :: "State \<Rightarrow> bool" where
  "cursor_row_in_grid s =
     (case currentPos s of None \<Rightarrow> True | Some c \<Rightarrow> cellY c < length (mazeGrid s))"

text \<open>The cursor is unset or on a cell of the grid that is not a wall.\<close>

definition cursor_safe :: "State \<Rightarrow> bool" where
  "cursor_safe s =
     (case currentPos s of
        None \<Rightarrow> True
      | Some c \<Rightarrow> c \<in> set (concat (mazeGrid s)) \<and> cellType c \<noteq> Wall)"

section \<open>Example states\<close>

text \<open>The maze of the specification's scenario, typed into the text box.\<close>

definition scenario_text :: string where
  "scenario_text = ''###'' @ [CHR 0x0A] @ ''#P.'' @ [CHR 0x0A] @ ''#.E'' @ [CHR 0x0A] @ ''###''"

definition scenario :: State where
  "scenario = handleMazeInput scenario_text initialState"

text \<open>The same maze without the end symbol.\<close>

definition scenario_no_end :: State where
  "scenario_no_end =
     handleMazeInput (''###'' @ [CHR 0x0A] @ ''#P.'' @ [CHR 0x0A] @ ''#..'' @ [CHR 0x0A] @ ''###'')
       initialState"

text \<open>A text with several start and end symbols, before the effect has run.\<close>

definition dup_state :: State where
  "dup_state = initialState\<lparr>maze := [''.E.'', ''PEP'', ''P..'']\<rparr>"

text \<open>A maze on one line.\<close>

definition line_maze :: State where
  "line_maze = handleMazeInput ''P.E'' initialState"

text \<open>The same maze after the field of the key for "right" has been cleared.\<close>

definition unbound_right :: State where
  "unbound_right = setMoveKey Right '''' line_maze"

text \<open>Start and End with a wall between them.\<close>

definition walled :: State where
  "walled = handleMazeInput ''P#E'' initialState"

text \<open>A text whose second line is longer than its first.\<close>

definition ragged :: State where
  "ragged = handleMazeInput (''#'' @ [CHR 0x0A] @ ''P.E'') initialState"

text \<open>Another such text, solved, replayed to the end, and the cursor moved down by one key
  press.\<close>

definition uneven :: State where
  "uneven = handleMazeInput (''PE'' @ [CHR 0x0A] @ ''....'') initialState"

definition uneven_cursor :: State where
  "uneven_cursor =
     (case solveMaze_run uneven of
        Inl err \<Rightarrow> uneven
      | Inr states \<Rightarrow> fst (handleKeyPresses [''s''] (last states)))"

text \<open>The scenario solved: after the first resumption of the replay, and after the last.\<close>

definition mid_replay :: State where
  "mid_replay = (case solveMaze_run scenario of Inl err \<Rightarrow> scenario | Inr states \<Rightarrow> states ! 1)"

definition after_replay :: State where
  "after_replay = (case solveMaze_run scenario of Inl err \<Rightarrow> scenario | Inr states \<Rightarrow> last states)"

text \<open>After that replay the text is replaced by a maze on one line: the cursor stays where
  the replay left it, in the third row.\<close>

definition stale_cursor :: State where
  "stale_cursor = handleMazeInput ''P.E'' after_replay"

text \<open>
  The scenario with the solve button clicked a second time, 120 ms after the first: the
  first replay has resumed twice (at 50 and 100 ms) and resumes for the last time at 150
  ms, before the first timer of the second replay (170 ms).
\<close>

definition second_solve :: "event list" where
  "second_solve = [MazeInput scenario_text, SolveClick, Timer 0, Timer 0, SolveClick, Timer 0]"

text \<open>
  A maze on one line solved, its text replaced by a shorter maze and solved again 70 ms
  after the first click; then every timer, in the order of the deadlines: the first replay
  at 50, 100, 150, 200 and 250 ms, the second at 120 and 170 ms.
\<close>

definition edit_and_solve :: "event list" where
  "edit_and_solve =
     [MazeInput ''P...E'', SolveClick, Timer 0, MazeInput ''PE'', SolveClick,
      Timer 0, Timer 1, Timer 0, Timer 1, Timer 0, Timer 0]"

section \<open>Notions used in the proofs\<close>

text \<open>The number of grid positions not yet marked: with the length of the queue it bounds
  the iterations left.\<close>

definition unseen :: "Cell list list \<Rightarrow> bool list list \<Rightarrow> nat" where
  "unseen g v =
     card {p \<in> (\<lambda>c. (cellY c, cellX c)) ` set (concat g). visited_get v (fst p) (snd p) \<noteq> Inr True}"

text \<open>A grid whose cells carry their own position, as every built grid does.\<close>

definition wf_grid :: "Cell list list \<Rightarrow> bool" where
  "wf_grid g \<longleftrightarrow> (\<forall>y<length g. \<forall>x<length (g ! y). cellX (g ! y ! x) = x \<and> cellY (g ! y ! x) = y)"

text \<open>The grid-side form of \<open>rows_within_first\<close>.\<close>

definition row0_longest :: "Cell list list \<Rightarrow> bool" where
  "row0_longest g \<longleftrightarrow> (\<forall>r \<in> set g. length r \<le> length (hd g))"

text \<open>The position of a cell is marked in the visited matrix.\<close>

definition marked :: "bool list list \<Rightarrow> Cell \<Rightarrow> bool" where
  "marked v c \<longleftrightarrow> visited_get v (cellY c) (cellX c) = Inr True"

text \<open>The visited matrix has a row for every row of the grid.\<close>

definition shape_ok :: "Cell list list \<Rightarrow> bool list list \<Rightarrow> bool" where
  "shape_ok g v \<longleftrightarrow> length v = length g"

text \<open>What the \<open>for\<close> loop over the directions \<open>ds\<close> did from the visited matrix \<open>v\<close>: the
  entries \<open>news\<close> it pushed and the matrix \<open>v'\<close> it left.\<close>

definition explored ::
  "Cell list list \<Rightarrow> MoveKeys \<Rightarrow> entry \<Rightarrow> Direction list \<Rightarrow> bool list list \<Rightarrow> entry list
     \<Rightarrow> bool list list \<Rightarrow> bool" where
  "explored g mk e ds v news v' \<longleftrightarrow>
     shape_ok g v' \<and>
     (\<forall>n \<in> set news.
        cell n \<in> set (concat g) \<and> cellType (cell n) \<noteq> Wall \<and> \<not> marked v (cell n) \<and>
        path n = path e @ [cell n] \<and>
        (\<exists>d \<in> set ds. step_direction (cell e) (cell n) = Some d \<and>
                        moves n = moves e @ [getKeyForDirection mk d])) \<and>
     (\<forall>c \<in> set (concat g). marked v' c \<longleftrightarrow> marked v c \<or> c \<in> cell ` set news) \<and>
     (\<forall>d \<in> set ds. \<forall>c. getNextCell g (cell e) d = Inr (Some c) \<and> cellType c \<noteq> Wall
                        \<longrightarrow> marked v' c)"

text \<open>The directions of the steps of a path.\<close>

fun path_directions :: "Cell list \<Rightarrow> Direction option list" where
  "path_directions (a # b # r) = step_direction a b # path_directions (b # r)"
| "path_directions _ = []"

text \<open>A queue entry whose path is a walk from the start to its cell, with one key per step.\<close>

definition entry_ok :: "Cell list list \<Rightarrow> MoveKeys \<Rightarrow> Cell \<Rightarrow> entry \<Rightarrow> bool" where
  "entry_ok g mk st e \<longleftrightarrow>
     walk g (path e) \<and> hd (path e) = st \<and> last (path e) = cell e \<and>
     (\<exists>ds. path_directions (path e) = map Some ds \<and> moves e = map (getKeyForDirection mk) ds)"

text \<open>The invariant of the \<open>while\<close> loop for shortest paths, on the queue, the visited matrix
  and the entries already taken from the queue.\<close>

definition binv ::
  "Cell list list \<Rightarrow> Cell \<Rightarrow> Cell \<Rightarrow> entry list \<Rightarrow> bool list list \<Rightarrow> entry list \<Rightarrow> bool" where
  "binv g st en q v log \<longleftrightarrow>
     shape_ok g v \<and>
     (\<forall>e \<in> set (log @ q). walk g (path e) \<and> hd (path e) = st \<and> last (path e) = cell e) \<and>
     sorted_wrt (\<lambda>a b. length (path a) \<le> length (path b)) (log @ q) \<and>
     (\<forall>e \<in> set q. length (path e) \<le> length (path (hd q)) + 1) \<and>
     (\<forall>c \<in> set (concat g). marked v c \<longrightarrow> c \<in> cell ` set (log @ q)) \<and>
     (\<forall>d \<in> set log. \<forall>c \<in> set (concat g). adjacent (cell d) c \<and> cellType c \<noteq> Wall \<longrightarrow> marked v c) \<and>
     (\<forall>e \<in> set (log @ q). cell e \<noteq> st \<longrightarrow>
        (\<forall>w. walk g w \<and> hd w = st \<and> last w = cell e \<longrightarrow> length (path e) \<le> length w)) \<and>
     (st \<in> cell ` set log \<or> (q \<noteq> [] \<and> path (hd q) = [st])) \<and>
     (\<forall>d \<in> set log. \<not> (cellX (cell d) = cellX en \<and> cellY (cell d) = cellY en))"

text \<open>
  One replay in flight, of the cells \<open>cs\<close>, that has applied \<open>n\<close> of them: the animating flag
  is set and the cursor is on the cell applied last.
\<close>

definition tracking :: "Cell list \<Rightarrow> nat \<Rightarrow> session \<Rightarrow> bool" where
  "tracking cs n ss \<longleftrightarrow>
     snd ss = [drop n cs] \<and> 0 < n \<and> n \<le> length cs \<and> isAnimating (fst ss) \<and>
     currentPos (fst ss) = Some (cs ! (n - 1))"

section \<open>Termination of the search\<close>

lemma index2_in_grid: "index2 g i j = Inr (Some c) \<Longrightarrow> c \<in> set (concat g)"
proof -
  assume "index2 g i j = Inr (Some c)"
  then have "i < length g" "j < length (g ! i)" "c = g ! i ! j"
    by (auto simp: index2_def split: if_splits)
  then have "g ! i \<in> set g" "c \<in> set (g ! i)" by simp_all
  then show ?thesis by auto
qed

lemma getNextCell_in_grid: "getNextCell g c d = Inr (Some n) \<Longrightarrow> n \<in> set (concat g)"
  by (cases d) (auto simp: getNextCell_def Let_def dest: index2_in_grid split: if_splits)

lemma visited_get_set:
  "y < length v \<Longrightarrow>
   visited_get (visited_set v y x) y' x' =
     (if y' = y \<and> x' = x then Inr True else visited_get v y' x')"
  by (auto simp: visited_get_def visited_set_def Let_def nth_append nth_list_update)

lemma unseen_visited_set:
  assumes "n \<in> set (concat g)" "visited_get v (cellY n) (cellX n) = Inr False"
  shows "unseen g (visited_set v (cellY n) (cellX n)) < unseen g v"
proof -
  let ?P = "(\<lambda>c. (cellY c, cellX c)) ` set (concat g)"
  let ?v' = "visited_set v (cellY n) (cellX n)"
  let ?A = "{p \<in> ?P. visited_get v (fst p) (snd p) \<noteq> Inr True}"
  let ?B = "{p \<in> ?P. visited_get ?v' (fst p) (snd p) \<noteq> Inr True}"
  from assms(2) have y: "cellY n < length v"
    by (auto simp: visited_get_def split: if_splits)
  have fin: "finite ?A" by simp
  have "(cellY n, cellX n) \<in> ?A" using assms by auto
  moreover have "(cellY n, cellX n) \<notin> ?B" by (simp add: visited_get_set[OF y])
  moreover have "?B \<subseteq> ?A" by (auto simp: visited_get_set[OF y] split: if_splits)
  ultimately have "?B \<subset> ?A" by blast
  then show ?thesis unfolding unseen_def by (intro psubset_card_mono[OF fin])
qed

lemma explore_measure:
  "explore g mk e ds q v = Inr (q', v') \<Longrightarrow>
   2 * unseen g v' + length q' \<le> 2 * unseen g v + length q"
proof (induction ds arbitrary: q v)
  case Nil
  then show ?case by simp
next
  case (Cons d ds)
  show ?case
  proof (cases "getNextCell g (cell e) d")
    case (Inl err)
    with Cons.prems show ?thesis by simp
  next
    case (Inr r)
    show ?thesis
    proof (cases r)
      case None
      with Inr Cons show ?thesis by simp
    next
      case (Some n)
      note n = getNextCell_in_grid[OF Inr[unfolded Some]]
      show ?thesis
      proof (cases "visited_get v (cellY n) (cellX n)")
        case (Inl err)
        with Inr Some Cons.prems show ?thesis by simp
      next
        case seen: (Inr seen)
        show ?thesis
        proof (cases "\<not> seen \<and> cellType n \<noteq> Wall")
          case True
          with seen have "visited_get v (cellY n) (cellX n) = Inr False" by simp
          from unseen_visited_set[OF n this]
          have lt: "unseen g (visited_set v (cellY n) (cellX n)) < unseen g v" .
          from Cons.prems Inr Some seen True
          have "explore g mk e ds
                  (q @ [\<lparr>cell = n, path = path e @ [n],
                         moves = moves e @ [getKeyForDirection mk d]\<rparr>])
                  (visited_set v (cellY n) (cellX n)) = Inr (q', v')"
            by simp
          from Cons.IH[OF this] lt show ?thesis by simp
        next
          case False
          with Cons.prems Inr Some seen have "explore g mk e ds q v = Inr (q', v')"
            by auto
          from Cons.IH[OF this] show ?thesis .
        qed
      qed
    qed
  qed
qed

termination whileLoop
proof (relation "measure (\<lambda>(g, mk, en, q, v, log). 2 * unseen g v + length q)")
  show "wf (measure (\<lambda>(g, mk, en, q, v, log). 2 * unseen g v + length q))" by simp
next
  fix g mk en queue visited log e rest x2 queue' visited'
  assume "queue = e # rest" and "explore g mk e directions rest visited = Inr x2"
    and "(queue', visited') = x2"
  then have "explore g mk e directions rest visited = Inr (queue', visited')" by simp
  from explore_measure[OF this] \<open>queue = e # rest\<close>
  show "((g, mk, en, queue', visited', log @ [e]), (g, mk, en, queue, visited, log))
          \<in> measure (\<lambda>(g, mk, en, q, v, log). 2 * unseen g v + length q)"
    by simp
qed

declare whileLoop.simps [simp del]

section \<open>The grid builder\<close>

lemma find_append_case:
  "find P (xs @ ys) = (case find P xs of None \<Rightarrow> find P ys | Some c \<Rightarrow> Some c)"
  by (induction xs) auto

lemma find_concat_None:
  "find P (concat g) = None \<Longrightarrow> y < length g \<Longrightarrow> x < length (g ! y) \<Longrightarrow> \<not> P (g ! y ! x)"
proof -
  assume a: "find P (concat g) = None" "y < length g" "x < length (g ! y)"
  then have "g ! y \<in> set g" "g ! y ! x \<in> set (g ! y)" by simp_all
  then have "g ! y ! x \<in> set (concat g)" by auto
  with a(1) show ?thesis unfolding find_None_iff by blast
qed

lemma find_concat_Some:
  "find P (concat g) = Some c \<Longrightarrow>
   \<exists>y x. y < length g \<and> x < length (g ! y) \<and> c = g ! y ! x \<and> P c \<and>
     (\<forall>y' x'. y' \<le> y \<longrightarrow> x' < length (g ! y') \<longrightarrow> y' < y \<or> x' < x \<longrightarrow> \<not> P (g ! y' ! x'))"
proof (induction g)
  case Nil
  then show ?case by simp
next
  case (Cons r rs)
  show ?case
  proof (cases "find P r")
    case None
    then have r: "\<And>x. x < length r \<Longrightarrow> \<not> P (r ! x)" by (simp add: find_None_iff)
    from Cons.prems None have "find P (concat rs) = Some c" by (simp add: find_append_case)
    from Cons.IH[OF this] obtain y x where yx:
      "y < length rs" "x < length (rs ! y)" "c = rs ! y ! x" "P c"
      "\<forall>y' x'. y' \<le> y \<longrightarrow> x' < length (rs ! y') \<longrightarrow> y' < y \<or> x' < x \<longrightarrow> \<not> P (rs ! y' ! x')"
      by blast
    have "\<forall>y' x'. y' \<le> Suc y \<longrightarrow> x' < length ((r # rs) ! y') \<longrightarrow> y' < Suc y \<or> x' < x
            \<longrightarrow> \<not> P ((r # rs) ! y' ! x')"
    proof (intro allI impI)
      fix y' x'
      assume h: "y' \<le> Suc y" "x' < length ((r # rs) ! y')" "y' < Suc y \<or> x' < x"
      show "\<not> P ((r # rs) ! y' ! x')"
      proof (cases y')
        case 0
        with h r show ?thesis by simp
      next
        case (Suc k)
        with h yx(5) show ?thesis by auto
      qed
    qed
    with yx(1-4) show ?thesis
      by (intro exI[of _ "Suc y"] exI[of _ x]) simp
  next
    case (Some d)
    with Cons.prems have "d = c" by (simp add: find_append_case)
    with Some obtain i where i: "i < length r" "P (r ! i)" "c = r ! i" "\<forall>j<i. \<not> P (r ! j)"
      by (auto simp: find_Some_iff)
    then show ?thesis
      by (intro exI[of _ 0] exI[of _ i]) auto
  qed
qed

lemma find_first_of_kind:
  "first_of_kind g k (find (\<lambda>c. cellType c = k) (concat g))"
proof (cases "find (\<lambda>c. cellType c = k) (concat g)")
  case None
  from find_concat_None[OF this] show ?thesis
    by (auto simp: first_of_kind_def None)
next
  case (Some c)
  from find_concat_Some[OF this] obtain y x where yx:
    "y < length g" "x < length (g ! y)" "c = g ! y ! x" "cellType c = k"
    "\<forall>y' x'. y' \<le> y \<longrightarrow> x' < length (g ! y') \<longrightarrow> y' < y \<or> x' < x \<longrightarrow> cellType (g ! y' ! x') \<noteq> k"
    by blast
  then show ?thesis
    unfolding first_of_kind_def Some option.case
    by (intro bexI[of _ y] bexI[of _ x]) auto
qed

lemma buildGrid_length: "length (buildGrid mz w st en) = length mz"
  by (simp add: buildGrid_def)

lemma buildGrid_row_length:
  "y < length mz \<Longrightarrow> length (buildGrid mz w st en ! y) = length (mz ! y)"
  by (simp add: buildGrid_def nth_enumerate_eq)

lemma buildGrid_nth:
  "y < length mz \<Longrightarrow> x < length (mz ! y) \<Longrightarrow>
   buildGrid mz w st en ! y ! x = \<lparr>cellX = x, cellY = y, cellType = classify w st en (mz ! y ! x)\<rparr>"
  by (simp add: buildGrid_def nth_enumerate_eq)

text \<open>
  Claim C6. After the effect has built a grid (the maze text has at least one line), the
  designated Start is the first cell in row-major order whose kind is Start and the
  designated End is the first whose kind is End; each is absent when no cell has the kind.
  With several candidates the first one is taken.
\<close>

theorem gridEffect_designates_first:
  "maze s \<noteq> [] \<Longrightarrow>
   first_of_kind (mazeGrid (gridEffect s)) Start (start (gridEffect s)) \<and>
   first_of_kind (mazeGrid (gridEffect s)) End (endCell (gridEffect s))"
  by (simp add: gridEffect_def Let_def find_first_of_kind)

theorem gridEffect_designates_first_witness:
  "maze dup_state \<noteq> [] \<and>
   start (gridEffect dup_state) = Some \<lparr>cellX = 0, cellY = 1, cellType = Start\<rparr> \<and>
   endCell (gridEffect dup_state) = Some \<lparr>cellX = 1, cellY = 0, cellType = End\<rparr> \<and>
   first_of_kind (mazeGrid (gridEffect dup_state)) Start (start (gridEffect dup_state)) \<and>
   first_of_kind (mazeGrid (gridEffect dup_state)) End (endCell (gridEffect dup_state))"
proof -
  have m: "maze dup_state \<noteq> []" by (simp add: dup_state_def)
  have "start (gridEffect dup_state) = Some \<lparr>cellX = 0, cellY = 1, cellType = Start\<rparr>"
    by code_simp
  moreover have "endCell (gridEffect dup_state) = Some \<lparr>cellX = 1, cellY = 0, cellType = End\<rparr>"
    by code_simp
  ultimately show ?thesis using m gridEffect_designates_first[OF m] by simp
qed

text \<open>
  Claim C7. Every cell of a built grid carries its own column and row, and its kind follows
  from its character by the fixed precedence: the wall symbol gives Wall, else the start
  symbol gives Start, else the end symbol gives End, else the kind is Path. The path symbol
  plays no part.
\<close>

theorem gridEffect_cell_kind:
  assumes "maze s \<noteq> []" "y < length (maze s)" "x < length (maze s ! y)"
  shows "length (mazeGrid (gridEffect s)) = length (maze s) \<and>
         length (mazeGrid (gridEffect s) ! y) = length (maze s ! y) \<and>
         mazeGrid (gridEffect s) ! y ! x =
           \<lparr>cellX = x, cellY = y,
            cellType =
              (if [maze s ! y ! x] = wallSymbol s then Wall
               else if [maze s ! y ! x] = startSymbol s then Start
               else if [maze s ! y ! x] = endSymbol s then End
               else Path)\<rparr>"
  using assms
  by (simp add: gridEffect_def Let_def buildGrid_length buildGrid_row_length buildGrid_nth
      classify_def)

theorem gridEffect_cell_kind_witness:
  "maze dup_state \<noteq> [] \<and> 1 < length (maze dup_state) \<and> 2 < length (maze dup_state ! 1) \<and>
   mazeGrid (gridEffect dup_state) ! 1 ! 2 = \<lparr>cellX = 2, cellY = 1, cellType = Start\<rparr>"
proof -
  have h: "maze dup_state \<noteq> []" "1 < length (maze dup_state)" "2 < length (maze dup_state ! 1)"
    by (simp_all add: dup_state_def)
  from gridEffect_cell_kind[OF h] h show ?thesis
    by (simp add: dup_state_def initialState_def)
qed

section \<open>Solving without an endpoint\<close>

text \<open>
  Claim C3. When the designated Start or the designated End is absent, \<open>solveMaze\<close> returns
  at once: no search runs and the whole state (grid, cursor, solution string) is as before.
\<close>

theorem solveMaze_missing_endpoint:
  "start s = None \<or> endCell s = None \<Longrightarrow> solveMaze s = Inr (s, NoOp)"
  by (auto simp: solveMaze_def split: option.splits)

theorem solveMaze_missing_endpoint_witness:
  "(start scenario_no_end = None \<or> endCell scenario_no_end = None) \<and>
   solveMaze scenario_no_end = Inr (scenario_no_end, NoOp)"
proof -
  have h: "endCell scenario_no_end = None" by code_simp
  then have "start scenario_no_end = None \<or> endCell scenario_no_end = None" ..
  from this solveMaze_missing_endpoint[OF this] show ?thesis by simp
qed

section \<open>Cells and neighbours of a built grid\<close>

lemma in_concat_nth: "c \<in> set (concat g) \<Longrightarrow> \<exists>y x. y < length g \<and> x < length (g ! y) \<and> c = g ! y ! x"
  by (auto simp: in_set_conv_nth) blast

lemma nth_in_concat: "y < length g \<Longrightarrow> x < length (g ! y) \<Longrightarrow> g ! y ! x \<in> set (concat g)"
proof -
  assume "y < length g" "x < length (g ! y)"
  then have "g ! y \<in> set g" "g ! y ! x \<in> set (g ! y)" by simp_all
  then show ?thesis by auto
qed

lemma cell_at:
  assumes "wf_grid g" "c \<in> set (concat g)"
  shows "cellY c < length g \<and> cellX c < length (g ! cellY c) \<and> g ! cellY c ! cellX c = c"
proof -
  from in_concat_nth[OF assms(2)] obtain y x where
    yx: "y < length g" "x < length (g ! y)" "c = g ! y ! x" by blast
  with assms(1) have "cellX c = x" "cellY c = y" by (auto simp: wf_grid_def)
  with yx show ?thesis by simp
qed

lemma cell_eqI:
  assumes "wf_grid g" "a \<in> set (concat g)" "b \<in> set (concat g)"
    "cellX a = cellX b" "cellY a = cellY b"
  shows "a = b"
proof -
  have "g ! cellY a ! cellX a = a" using cell_at[OF assms(1,2)] by blast
  moreover have "g ! cellY b ! cellX b = b" using cell_at[OF assms(1,3)] by blast
  ultimately show ?thesis using assms(4,5) by metis
qed

lemma wf_grid_buildGrid: "wf_grid (buildGrid mz w st en)"
  by (simp add: wf_grid_def buildGrid_length buildGrid_row_length buildGrid_nth)

lemma row0_longest_buildGrid:
  assumes "rows_within_first mz" shows "row0_longest (buildGrid mz w st en)"
proof (cases mz)
  case Nil
  then show ?thesis by (simp add: row0_longest_def buildGrid_def)
next
  case (Cons r rs)
  have "length (hd (buildGrid mz w st en)) = length (hd mz)"
    using Cons by (simp add: buildGrid_def hd_map)
  moreover have "\<forall>r \<in> set (buildGrid mz w st en). \<exists>r' \<in> set mz. length r = length r'"
    by (auto simp: buildGrid_def enumerate_eq_zip dest!: set_zip_rightD)
  ultimately show ?thesis using assms
    by (auto simp: row0_longest_def rows_within_first_def list_all_iff)
qed

lemma getNextCell_ok:
  assumes "wf_grid g" "c \<in> set (concat g)"
  shows "\<exists>r. getNextCell g c d = Inr r"
proof -
  from cell_at[OF assms] have y: "cellY c < length g" by simp
  then have "g \<noteq> []" by auto
  with y show ?thesis
    by (cases d) (auto simp: getNextCell_def index2_def Let_def)
qed

lemma getNextCell_step:
  assumes "wf_grid g" "c \<in> set (concat g)" "getNextCell g c d = Inr (Some n)"
  shows "step_direction c n = Some d"
proof -
  from assms(3) have
    "(d = Up \<and> 0 < cellY c \<and> cellY c - 1 < length g \<and> cellX c < length (g ! (cellY c - 1)) \<and> n = g ! (cellY c - 1) ! cellX c) \<or>
     (d = Down \<and> cellY c + 1 < length g \<and> cellX c < length (g ! (cellY c + 1)) \<and> n = g ! (cellY c + 1) ! cellX c) \<or>
     (d = Left \<and> 0 < cellX c \<and> cellY c < length g \<and> cellX c - 1 < length (g ! cellY c) \<and> n = g ! cellY c ! (cellX c - 1)) \<or>
     (d = Right \<and> cellY c < length g \<and> cellX c + 1 < length (g ! cellY c) \<and> n = g ! cellY c ! (cellX c + 1))"
    by (cases d) (auto simp: getNextCell_def index2_def Let_def split: if_splits)
  with assms(1) show ?thesis
    by (auto simp: wf_grid_def step_direction_def)
qed

lemma step_direction_adjacent: "step_direction a b = Some d \<Longrightarrow> adjacent a b"
  by (auto simp: step_direction_def adjacent_def split: if_splits)

lemma getNextCell_complete:
  assumes "wf_grid g" "row0_longest g" "c \<in> set (concat g)" "n \<in> set (concat g)" "adjacent c n"
  shows "\<exists>d. getNextCell g c d = Inr (Some n)"
proof -
  note cc = cell_at[OF assms(1,3)] and nn = cell_at[OF assms(1,4)]
  from cc have ne: "g \<noteq> []" by auto
  have r0: "length (g ! cellY n) \<le> length (g ! 0)"
    using assms(2) nn ne by (simp add: row0_longest_def hd_conv_nth)
  from assms(5) consider
    (u) "cellX c = cellX n" "cellY c = cellY n + 1" | (d) "cellX c = cellX n" "cellY n = cellY c + 1" |
    (l) "cellY c = cellY n" "cellX c = cellX n + 1" | (r) "cellY c = cellY n" "cellX n = cellX c + 1"
    by (auto simp: adjacent_def)
  then show ?thesis
  proof cases
    case u
    with nn have "getNextCell g c Up = Inr (Some n)"
      by (simp add: getNextCell_def index2_def Let_def)
    then show ?thesis ..
  next
    case d
    with nn have "getNextCell g c Down = Inr (Some n)"
      by (simp add: getNextCell_def index2_def Let_def)
    then show ?thesis ..
  next
    case l
    with nn have "getNextCell g c Left = Inr (Some n)"
      by (simp add: getNextCell_def index2_def Let_def)
    then show ?thesis ..
  next
    case r
    with nn r0 ne have "getNextCell g c Right = Inr (Some n)"
      by (simp add: getNextCell_def index2_def Let_def)
    then show ?thesis ..
  qed
qed

lemma marked_visited_set:
  assumes "wf_grid g" "n \<in> set (concat g)" "c \<in> set (concat g)" "cellY n < length v"
  shows "marked (visited_set v (cellY n) (cellX n)) c \<longleftrightarrow> c = n \<or> marked v c"
  using cell_eqI[OF assms(1,3,2)]
  by (auto simp: marked_def visited_get_set[OF assms(4)])

lemma shape_ok_visited_set: "shape_ok g v \<Longrightarrow> shape_ok g (visited_set v y x)"
  by (simp add: shape_ok_def visited_set_def)

lemma explored_Nil: "shape_ok g v \<Longrightarrow> explored g mk e [] v [] v"
  by (simp add: explored_def)

lemma explored_skip:
  assumes "explored g mk e ds v news v'"
    and "\<And>c. getNextCell g (cell e) d = Inr (Some c) \<Longrightarrow> cellType c \<noteq> Wall \<Longrightarrow> marked v c"
  shows "explored g mk e (d # ds) v news v'"
  using assms getNextCell_in_grid[of g "cell e" d] unfolding explored_def by (auto 4 4)

lemma explored_push:
  assumes wf: "wf_grid g" and e: "cell e \<in> set (concat g)" and sh: "shape_ok g v"
    and nx: "getNextCell g (cell e) d = Inr (Some n)"
    and fresh: "\<not> marked v n" "cellType n \<noteq> Wall"
    and rest: "explored g mk e ds (visited_set v (cellY n) (cellX n)) news v'"
  shows "explored g mk e (d # ds) v
           (\<lparr>cell = n, path = path e @ [n], moves = moves e @ [getKeyForDirection mk d]\<rparr> # news) v'"
proof -
  let ?v1 = "visited_set v (cellY n) (cellX n)"
  have n: "n \<in> set (concat g)" by (rule getNextCell_in_grid[OF nx])
  have y: "cellY n < length v" using cell_at[OF wf n] sh by (simp add: shape_ok_def)
  have m1: "\<And>c. c \<in> set (concat g) \<Longrightarrow> marked ?v1 c \<longleftrightarrow> c = n \<or> marked v c"
    by (rule marked_visited_set[OF wf n _ y])
  have sd: "step_direction (cell e) n = Some d" by (rule getNextCell_step[OF wf e nx])
  from rest have r:
    "shape_ok g v'"
    "\<And>k. k \<in> set news \<Longrightarrow> cell k \<in> set (concat g) \<and> cellType (cell k) \<noteq> Wall \<and>
        \<not> marked ?v1 (cell k) \<and> path k = path e @ [cell k] \<and>
        (\<exists>d \<in> set ds. step_direction (cell e) (cell k) = Some d \<and>
                        moves k = moves e @ [getKeyForDirection mk d])"
    "\<And>c. c \<in> set (concat g) \<Longrightarrow> marked v' c \<longleftrightarrow> marked ?v1 c \<or> c \<in> cell ` set news"
    "\<And>d c. d \<in> set ds \<Longrightarrow> getNextCell g (cell e) d = Inr (Some c) \<Longrightarrow> cellType c \<noteq> Wall
        \<Longrightarrow> marked v' c"
    unfolding explored_def by blast+
  show ?thesis
    unfolding explored_def
  proof (intro conjI ballI allI impI)
    show "shape_ok g v'" by (rule r(1))
  next
    fix k assume k: "k \<in> set (\<lparr>cell = n, path = path e @ [n],
                       moves = moves e @ [getKeyForDirection mk d]\<rparr> # news)"
    show "cell k \<in> set (concat g)" using k n r(2) by auto
    show "cellType (cell k) \<noteq> Wall" using k fresh r(2) by auto
    show "\<not> marked v (cell k)" using k fresh r(2) m1 by auto
    show "path k = path e @ [cell k]" using k r(2) by auto
    show "\<exists>d \<in> set (d # ds). step_direction (cell e) (cell k) = Some d \<and>
                        moves k = moves e @ [getKeyForDirection mk d]"
      using k sd r(2) by auto
  next
    fix c assume c: "c \<in> set (concat g)"
    show "marked v' c \<longleftrightarrow> marked v c \<or> c \<in> cell ` set (\<lparr>cell = n, path = path e @ [n],
                       moves = moves e @ [getKeyForDirection mk d]\<rparr> # news)"
      using r(3)[OF c] m1[OF c] by auto
  next
    fix d' c assume d': "d' \<in> set (d # ds)"
      and c: "getNextCell g (cell e) d' = Inr (Some c) \<and> cellType c \<noteq> Wall"
    show "marked v' c"
    proof (cases "d' = d")
      case True
      with c nx have "c = n" by simp
      with r(3)[OF n] m1[OF n] show ?thesis by simp
    next
      case False
      with d' c r(4) show ?thesis by auto
    qed
  qed
qed

lemma explore_result:
  assumes wf: "wf_grid g" and e: "cell e \<in> set (concat g)"
  shows "shape_ok g v \<Longrightarrow>
         \<exists>news v'. explore g mk e ds q v = Inr (q @ news, v') \<and> explored g mk e ds v news v'"
proof (induction ds arbitrary: q v)
  case Nil
  then show ?case by (auto intro: explored_Nil)
next
  case (Cons d ds)
  from getNextCell_ok[OF wf e] obtain r where r: "getNextCell g (cell e) d = Inr r" by blast
  show ?case
  proof (cases r)
    case None
    from Cons.IH[OF Cons.prems, of q] obtain news v' where
      h: "explore g mk e ds q v = Inr (q @ news, v')" "explored g mk e ds v news v'" by blast
    have "explored g mk e (d # ds) v news v'"
      by (rule explored_skip[OF h(2)]) (simp add: r None)
    with h(1) r None show ?thesis by auto
  next
    case (Some n)
    have n: "n \<in> set (concat g)" by (rule getNextCell_in_grid[OF r[unfolded Some]])
    have y: "cellY n < length v" using cell_at[OF wf n] Cons.prems by (simp add: shape_ok_def)
    then obtain seen where seen: "visited_get v (cellY n) (cellX n) = Inr seen"
      by (auto simp: visited_get_def)
    then have sm: "seen \<longleftrightarrow> marked v n" by (auto simp: marked_def)
    show ?thesis
    proof (cases "\<not> seen \<and> cellType n \<noteq> Wall")
      case True
      let ?ne = "\<lparr>cell = n, path = path e @ [n], moves = moves e @ [getKeyForDirection mk d]\<rparr>"
      let ?v1 = "visited_set v (cellY n) (cellX n)"
      have "shape_ok g ?v1" by (rule shape_ok_visited_set[OF Cons.prems])
      from Cons.IH[OF this, of "q @ [?ne]"] obtain news v' where
        h: "explore g mk e ds (q @ [?ne]) ?v1 = Inr ((q @ [?ne]) @ news, v')"
           "explored g mk e ds ?v1 news v'" by blast
      have "explored g mk e (d # ds) v (?ne # news) v'"
        using True sm by (intro explored_push[OF wf e Cons.prems r[unfolded Some] _ _ h(2)]) auto
      moreover have "explore g mk e (d # ds) q v = Inr (q @ ?ne # news, v')"
        using h(1) r Some seen True by simp
      ultimately show ?thesis by blast
    next
      case False
      from Cons.IH[OF Cons.prems, of q] obtain news v' where
        h: "explore g mk e ds q v = Inr (q @ news, v')" "explored g mk e ds v news v'" by blast
      have "explored g mk e (d # ds) v news v'"
      proof (rule explored_skip[OF h(2)])
        fix c assume "getNextCell g (cell e) d = Inr (Some c)" "cellType c \<noteq> Wall"
        with r Some False sm show "marked v c" by auto
      qed
      moreover have "explore g mk e (d # ds) q v = Inr (q @ news, v')"
        using h(1) r Some seen False by auto
      ultimately show ?thesis by blast
    qed
  qed
qed

section \<open>The search returns walks\<close>

lemma walk_nonempty: "walk g w \<Longrightarrow> w \<noteq> []"
  by (cases w) auto

lemma walk_snoc:
  "w \<noteq> [] \<Longrightarrow>
   walk g (w @ [c]) \<longleftrightarrow> walk g w \<and> adjacent (last w) c \<and> c \<in> set (concat g) \<and> cellType c \<noteq> Wall"
proof (induction g w rule: walk.induct)
  case (1 g)
  then show ?case by simp
next
  case (2 g a)
  then show ?case by auto
next
  case (3 g a b r)
  then show ?case by auto
qed

lemma walk_last: "walk g w \<Longrightarrow> last w \<in> set (concat g) \<and> cellType (last w) \<noteq> Wall"
  by (induction g w rule: walk.induct) auto

lemma path_directions_snoc:
  "p \<noteq> [] \<Longrightarrow> path_directions (p @ [c]) = path_directions p @ [step_direction (last p) c]"
  by (induction p rule: path_directions.induct) auto

lemma length_path_directions: "length (path_directions p) = length p - 1"
  by (induction p rule: path_directions.induct) auto

lemma nth_path_directions:
  "Suc i < length p \<Longrightarrow> path_directions p ! i = step_direction (p ! i) (p ! Suc i)"
proof (induction p arbitrary: i rule: path_directions.induct)
  case (1 a b r)
  then show ?case by (cases i) auto
qed auto

lemma entry_ok_init:
  "st \<in> set (concat g) \<Longrightarrow> cellType st \<noteq> Wall \<Longrightarrow> entry_ok g mk st \<lparr>cell = st, path = [st], moves = []\<rparr>"
  by (simp add: entry_ok_def)

lemma entry_ok_news:
  assumes u: "entry_ok g mk st u" and ex: "explored g mk u ds v news v'" and n: "n \<in> set news"
  shows "entry_ok g mk st n"
proof -
  from ex n obtain d where nn:
    "cell n \<in> set (concat g)" "cellType (cell n) \<noteq> Wall" "path n = path u @ [cell n]"
    "step_direction (cell u) (cell n) = Some d" "moves n = moves u @ [getKeyForDirection mk d]"
    unfolding explored_def by blast
  from u obtain ds' where uu: "walk g (path u)" "hd (path u) = st" "last (path u) = cell u"
    "path_directions (path u) = map Some ds'" "moves u = map (getKeyForDirection mk) ds'"
    unfolding entry_ok_def by blast
  have ne: "path u \<noteq> []" by (rule walk_nonempty[OF uu(1)])
  have "walk g (path n)"
    using nn uu ne step_direction_adjacent[OF nn(4)] by (simp add: walk_snoc)
  moreover have "hd (path n) = st" using nn(3) uu(2) ne by simp
  moreover have "last (path n) = cell n" using nn(3) by simp
  moreover have "path_directions (path n) = map Some (ds' @ [d])"
    using nn(3,4) uu(3,4) ne by (simp add: path_directions_snoc)
  moreover have "moves n = map (getKeyForDirection mk) (ds' @ [d])"
    using nn(5) uu(5) by simp
  ultimately show ?thesis unfolding entry_ok_def by blast
qed

lemma whileLoop_sound:
  "wf_grid g \<Longrightarrow> shape_ok g v \<Longrightarrow> \<forall>e \<in> set q. entry_ok g mk st e \<Longrightarrow>
         \<exists>log' r. whileLoop g mk en q v log = Inr (log', r) \<and>
           (\<forall>p ms. r = Some (p, ms) \<longrightarrow>
              (\<exists>e. entry_ok g mk st e \<and> p = path e \<and> ms = moves e \<and>
                   cellX (cell e) = cellX en \<and> cellY (cell e) = cellY en))"
proof (induction g mk en q v log rule: whileLoop.induct)
  case (1 g mk en queue visited log)
  show ?case
  proof (cases queue)
    case Nil
    then show ?thesis by (subst whileLoop.simps) simp
  next
    case (Cons u rest)
    show ?thesis
    proof (cases "cellX (cell u) = cellX en \<and> cellY (cell u) = cellY en")
      case True
      have "entry_ok g mk st u" using "1.prems"(3) Cons by simp
      with True Cons show ?thesis by (subst whileLoop.simps) auto
    next
      case False
      have u: "entry_ok g mk st u" using "1.prems"(3) Cons by simp
      then have cu: "cell u \<in> set (concat g)"
        using walk_last[of g "path u"] by (auto simp: entry_ok_def)
      from explore_result[OF "1.prems"(1) cu "1.prems"(2), of mk directions rest]
      obtain news v' where
        ex: "explore g mk u directions rest visited = Inr (rest @ news, v')"
            "explored g mk u directions visited news v'" by blast
      have sh: "shape_ok g v'" using ex(2) by (simp add: explored_def)
      have ok: "\<forall>e \<in> set (rest @ news). entry_ok g mk st e"
        using "1.prems"(3) Cons entry_ok_news[OF u ex(2)] by auto
      have "whileLoop g mk en queue visited log = whileLoop g mk en (rest @ news) v' (log @ [u])"
        using Cons False ex(1) by (subst whileLoop.simps) auto
      with "1.IH"[OF Cons False ex(1) refl "1.prems"(1) sh ok]
      show ?thesis by simp
    qed
  qed
qed

section \<open>The search returns shortest walks\<close>

lemma binv_shape: "binv g st en q v log \<Longrightarrow> shape_ok g v"
  by (simp add: binv_def)

lemma binv_walk:
  "binv g st en q v log \<Longrightarrow> e \<in> set (log @ q) \<Longrightarrow>
   walk g (path e) \<and> hd (path e) = st \<and> last (path e) = cell e"
  unfolding binv_def by blast

lemma binv_sorted:
  "binv g st en q v log \<Longrightarrow> sorted_wrt (\<lambda>a b. length (path a) \<le> length (path b)) (log @ q)"
  by (simp add: binv_def)

lemma binv_span:
  "binv g st en q v log \<Longrightarrow> e \<in> set q \<Longrightarrow> length (path e) \<le> length (path (hd q)) + 1"
  unfolding binv_def by blast

lemma binv_marked:
  "binv g st en q v log \<Longrightarrow> c \<in> set (concat g) \<Longrightarrow> marked v c \<Longrightarrow> c \<in> cell ` set (log @ q)"
  unfolding binv_def by blast

lemma binv_done:
  "binv g st en q v log \<Longrightarrow> d \<in> set log \<Longrightarrow> c \<in> set (concat g) \<Longrightarrow> adjacent (cell d) c \<Longrightarrow>
   cellType c \<noteq> Wall \<Longrightarrow> marked v c"
  unfolding binv_def by blast

lemma binv_least:
  "binv g st en q v log \<Longrightarrow> e \<in> set (log @ q) \<Longrightarrow> cell e \<noteq> st \<Longrightarrow>
   walk g w \<Longrightarrow> hd w = st \<Longrightarrow> last w = cell e \<Longrightarrow> length (path e) \<le> length w"
  unfolding binv_def by blast

lemma binv_start:
  "binv g st en q v log \<Longrightarrow> st \<in> cell ` set log \<or> (q \<noteq> [] \<and> path (hd q) = [st])"
  unfolding binv_def by blast

lemma binv_not_end:
  "binv g st en q v log \<Longrightarrow> d \<in> set log \<Longrightarrow> \<not> (cellX (cell d) = cellX en \<and> cellY (cell d) = cellY en)"
  unfolding binv_def by blast

lemma binv_head_least:
  assumes "binv g st en q v log" "e \<in> set q"
  shows "length (path (hd q)) \<le> length (path e)"
proof (cases q)
  case Nil
  with assms show ?thesis by simp
next
  case (Cons h t)
  from binv_sorted[OF assms(1)] have "sorted_wrt (\<lambda>a b. length (path a) \<le> length (path b)) (h # t)"
    unfolding Cons by (simp add: sorted_wrt_append)
  with assms(2) Cons show ?thesis by auto
qed

text \<open>Every cell that a walk shorter than the path at the head of the queue reaches has
  been taken from the queue.\<close>

lemma binv_complete:
  assumes inv: "binv g st en q v log"
  shows "walk g w \<Longrightarrow> hd w = st \<Longrightarrow> q = [] \<or> length w < length (path (hd q)) \<Longrightarrow>
         last w \<in> cell ` set log"
proof (induction w rule: rev_induct)
  case Nil
  then show ?case by simp
next
  case (snoc c w)
  have st_done: "length (w @ [c]) \<ge> 1 \<Longrightarrow> st \<in> cell ` set log"
    using binv_start[OF inv] snoc.prems(3) by auto
  show ?case
  proof (cases "w = []")
    case True
    with snoc.prems(2) st_done show ?thesis by simp
  next
    case False
    with snoc.prems(1) have w: "walk g w" "adjacent (last w) c" "c \<in> set (concat g)" "cellType c \<noteq> Wall"
      by (simp_all add: walk_snoc)
    have "hd w = st" using snoc.prems(2) False by simp
    moreover have "q = [] \<or> length w < length (path (hd q))" using snoc.prems(3) by auto
    ultimately have "last w \<in> cell ` set log" using snoc.IH w(1) by blast
    then obtain d where d: "d \<in> set log" "cell d = last w" by auto
    have "marked v c" using binv_done[OF inv d(1) w(3) _ w(4)] d(2) w(2) by simp
    from binv_marked[OF inv w(3) this] obtain e where e: "e \<in> set (log @ q)" "cell e = c" by auto
    show ?thesis
    proof (cases "e \<in> set log")
      case True
      with e(2) show ?thesis by auto
    next
      case notlog: False
      with e(1) have eq: "e \<in> set q" by simp
      then have "q \<noteq> []" by auto
      with snoc.prems(3) have lt: "length (w @ [c]) < length (path (hd q))" by simp
      also have "\<dots> \<le> length (path e)" by (rule binv_head_least[OF inv eq])
      finally have lt': "length (w @ [c]) < length (path e)" .
      show ?thesis
      proof (cases "c = st")
        case True
        with st_done show ?thesis by simp
      next
        case False
        from binv_least[OF inv e(1) _ snoc.prems(1,2)] e(2) False
        have "length (path e) \<le> length (w @ [c])" by simp
        with lt' show ?thesis by simp
      qed
    qed
  qed
qed

lemma binv_init:
  assumes "shape_ok g v" "st \<in> set (concat g)" "cellType st \<noteq> Wall"
    "\<forall>c \<in> set (concat g). \<not> marked v c"
  shows "binv g st en [\<lparr>cell = st, path = [st], moves = []\<rparr>] v []"
  using assms unfolding binv_def by simp

lemma all_directions: "d \<in> set directions"
  by (cases d) (simp_all add: directions_def)

lemma sorted_wrt_all: "(\<And>a b. a \<in> set xs \<Longrightarrow> b \<in> set xs \<Longrightarrow> R a b) \<Longrightarrow> sorted_wrt R xs"
  by (induction xs) auto

lemma binv_step:
  assumes wf: "wf_grid g" and r0: "row0_longest g"
    and inv: "binv g st en (u # rest) v log"
    and notend: "\<not> (cellX (cell u) = cellX en \<and> cellY (cell u) = cellY en)"
    and ex: "explored g mk u directions v news v'"
  shows "binv g st en (rest @ news) v' (log @ [u])"
proof -
  let ?len = "\<lambda>e. length (path e)"
  from ex have sh: "shape_ok g v'"
    and exn: "\<And>n. n \<in> set news \<Longrightarrow> cell n \<in> set (concat g) \<and> cellType (cell n) \<noteq> Wall \<and>
                \<not> marked v (cell n) \<and> path n = path u @ [cell n] \<and>
                (\<exists>d. step_direction (cell u) (cell n) = Some d)"
    and exm: "\<And>c. c \<in> set (concat g) \<Longrightarrow> marked v' c \<longleftrightarrow> marked v c \<or> c \<in> cell ` set news"
    and exd: "\<And>d c. getNextCell g (cell u) d = Inr (Some c) \<Longrightarrow> cellType c \<noteq> Wall \<Longrightarrow> marked v' c"
    unfolding explored_def using all_directions by blast+
  have uw: "walk g (path u)" "hd (path u) = st" "last (path u) = cell u"
    using binv_walk[OF inv, of u] by simp_all
  have une: "path u \<noteq> []" by (rule walk_nonempty[OF uw(1)])
  have cu: "cell u \<in> set (concat g)" using walk_last[OF uw(1)] uw(3) by simp
  have nlen: "\<And>n. n \<in> set news \<Longrightarrow> ?len n = ?len u + 1" using exn by simp
  have nwalk: "\<And>n. n \<in> set news \<Longrightarrow> walk g (path n) \<and> hd (path n) = st \<and> last (path n) = cell n"
  proof -
    fix n assume n: "n \<in> set news"
    from exn[OF n] obtain d where d: "step_direction (cell u) (cell n) = Some d" by blast
    from exn[OF n] uw une step_direction_adjacent[OF d]
    show "walk g (path n) \<and> hd (path n) = st \<and> last (path n) = cell n"
      by (simp add: walk_snoc)
  qed
  have old_le: "\<And>a. a \<in> set (log @ u # rest) \<Longrightarrow> ?len a \<le> ?len u + 1"
  proof -
    fix a assume a: "a \<in> set (log @ u # rest)"
    show "?len a \<le> ?len u + 1"
    proof (cases "a \<in> set log")
      case True
      from binv_sorted[OF inv] have "\<forall>x \<in> set log. \<forall>y \<in> set (u # rest). ?len x \<le> ?len y"
        by (simp add: sorted_wrt_append)
      with True show ?thesis by fastforce
    next
      case False
      with a have "a \<in> set (u # rest)" by simp
      from binv_span[OF inv this] show ?thesis by simp
    qed
  qed
  have new_ge: "\<And>a. a \<in> set (rest @ news) \<Longrightarrow> ?len u \<le> ?len a"
  proof -
    fix a assume "a \<in> set (rest @ news)"
    then consider "a \<in> set (u # rest)" | "a \<in> set news" by auto
    then show "?len u \<le> ?len a"
    proof cases
      case 1
      from binv_head_least[OF inv this] show ?thesis by simp
    next
      case 2
      with nlen show ?thesis by simp
    qed
  qed
  have c2: "\<forall>e \<in> set ((log @ [u]) @ rest @ news).
              walk g (path e) \<and> hd (path e) = st \<and> last (path e) = cell e"
    using binv_walk[OF inv] nwalk by auto
  have "sorted_wrt (\<lambda>a b. ?len a \<le> ?len b) ((log @ u # rest) @ news)"
    unfolding sorted_wrt_append[of _ "log @ u # rest" news]
  proof (intro conjI ballI)
    show "sorted_wrt (\<lambda>a b. ?len a \<le> ?len b) (log @ u # rest)" by (rule binv_sorted[OF inv])
    show "sorted_wrt (\<lambda>a b. ?len a \<le> ?len b) news"
      by (rule sorted_wrt_all) (simp add: nlen)
  next
    fix a b assume "a \<in> set (log @ u # rest)" "b \<in> set news"
    with old_le nlen show "?len a \<le> ?len b" by simp
  qed
  then have c3: "sorted_wrt (\<lambda>a b. ?len a \<le> ?len b) ((log @ [u]) @ rest @ news)" by simp
  have c4: "\<forall>e \<in> set (rest @ news). ?len e \<le> ?len (hd (rest @ news)) + 1"
  proof
    fix e assume e: "e \<in> set (rest @ news)"
    then have "rest @ news \<noteq> []" by auto
    then have "hd (rest @ news) \<in> set (rest @ news)" by (rule hd_in_set)
    from new_ge[OF this] have "?len u \<le> ?len (hd (rest @ news))" .
    moreover have "?len e \<le> ?len u + 1" using e old_le[of e] nlen[of e] by auto
    ultimately show "?len e \<le> ?len (hd (rest @ news)) + 1" by simp
  qed
  have c5: "\<forall>c \<in> set (concat g). marked v' c \<longrightarrow> c \<in> cell ` set ((log @ [u]) @ rest @ news)"
  proof (intro ballI impI)
    fix c assume c: "c \<in> set (concat g)" "marked v' c"
    with exm consider "marked v c" | "c \<in> cell ` set news" by blast
    then show "c \<in> cell ` set ((log @ [u]) @ rest @ news)"
    proof cases
      case 1
      from binv_marked[OF inv c(1) this] show ?thesis by auto
    next
      case 2
      then show ?thesis by auto
    qed
  qed
  have c6: "\<forall>d \<in> set (log @ [u]). \<forall>c \<in> set (concat g).
              adjacent (cell d) c \<and> cellType c \<noteq> Wall \<longrightarrow> marked v' c"
  proof (intro ballI impI)
    fix d c assume d: "d \<in> set (log @ [u])" and c: "c \<in> set (concat g)"
      and a: "adjacent (cell d) c \<and> cellType c \<noteq> Wall"
    show "marked v' c"
    proof (cases "d \<in> set log")
      case True
      from binv_done[OF inv True c] a have "marked v c" by simp
      with exm[OF c] show ?thesis by simp
    next
      case False
      with d have "d = u" by simp
      with a getNextCell_complete[OF wf r0 cu c] obtain dir where
        "getNextCell g (cell u) dir = Inr (Some c)" by blast
      from exd[OF this] a show ?thesis by simp
    qed
  qed
  have c7: "\<forall>e \<in> set ((log @ [u]) @ rest @ news). cell e \<noteq> st \<longrightarrow>
        (\<forall>w. walk g w \<and> hd w = st \<and> last w = cell e \<longrightarrow> ?len e \<le> length w)"
  proof (intro ballI impI allI)
    fix e w assume e: "e \<in> set ((log @ [u]) @ rest @ news)" and ne: "cell e \<noteq> st"
      and w: "walk g w \<and> hd w = st \<and> last w = cell e"
    show "?len e \<le> length w"
    proof (cases "e \<in> set news")
      case False
      with e have "e \<in> set (log @ u # rest)" by auto
      from binv_least[OF inv this ne] w show ?thesis by simp
    next
      case True
      show ?thesis
      proof (rule ccontr)
        assume "\<not> ?len e \<le> length w"
        with nlen[OF True] have short: "length w \<le> ?len u" by simp
        from w have wne: "w \<noteq> []" by (auto dest: walk_nonempty)
        then have split: "w = butlast w @ [last w]" by simp
        have bne: "butlast w \<noteq> []"
        proof
          assume "butlast w = []"
          with split have "w = [last w]" by simp
          then have "hd w = last w" by (metis list.sel(1))
          with w ne show False by auto
        qed
        from w split have "walk g (butlast w @ [cell e])" by simp
        with bne have b: "walk g (butlast w)" "adjacent (last (butlast w)) (cell e)"
          by (simp_all add: walk_snoc)
        have bh: "hd (butlast w) = st" using w bne split by (metis hd_append2)
        have "length (butlast w) < ?len (hd (u # rest))" using short wne by (cases w) auto
        then have "last (butlast w) \<in> cell ` set log"
          using binv_complete[OF inv b(1) bh] by simp
        then obtain d where d: "d \<in> set log" "cell d = last (butlast w)" by auto
        from exn[OF True] have en: "cell e \<in> set (concat g)" "cellType (cell e) \<noteq> Wall"
          "\<not> marked v (cell e)" by simp_all
        from binv_done[OF inv d(1) en(1) _ en(2)] b(2) d(2) have "marked v (cell e)" by simp
        with en(3) show False by simp
      qed
    qed
  qed
  have c8: "st \<in> cell ` set (log @ [u])"
  proof -
    from binv_start[OF inv] consider "st \<in> cell ` set log" | "path u = [st]" by auto
    then show ?thesis
    proof cases
      case 1
      then show ?thesis by auto
    next
      case 2
      with uw(3) have "cell u = st" by simp
      then show ?thesis by force
    qed
  qed
  have c9: "\<forall>d \<in> set (log @ [u]). \<not> (cellX (cell d) = cellX en \<and> cellY (cell d) = cellY en)"
    using binv_not_end[OF inv] notend by auto
  show ?thesis
    unfolding binv_def using sh c2 c3 c4 c5 c6 c7 c8 c9 by blast
qed

lemma whileLoop_shortest:
  "wf_grid g \<Longrightarrow> row0_longest g \<Longrightarrow> binv g st en q v log \<Longrightarrow> en \<in> set (concat g) \<Longrightarrow>
   en \<noteq> st \<Longrightarrow> walk g w0 \<Longrightarrow> hd w0 = st \<Longrightarrow> last w0 = en \<Longrightarrow>
   \<exists>log' p ms. whileLoop g mk en q v log = Inr (log', Some (p, ms)) \<and>
      (\<forall>w. walk g w \<and> hd w = st \<and> last w = en \<longrightarrow> length p \<le> length w)"
proof (induction g mk en q v log rule: whileLoop.induct)
  case (1 g mk en queue visited log)
  note wf = "1.prems"(1) and r0 = "1.prems"(2) and inv = "1.prems"(3)
  show ?case
  proof (cases queue)
    case Nil
    from binv_complete[OF inv "1.prems"(6,7)] Nil "1.prems"(8)
    obtain d where "d \<in> set log" "cell d = en" by auto
    with binv_not_end[OF inv] show ?thesis by blast
  next
    case (Cons u rest)
    have uw: "walk g (path u)" "last (path u) = cell u"
      using binv_walk[OF inv, of u] Cons by simp_all
    have cu: "cell u \<in> set (concat g)" using walk_last[OF uw(1)] uw(2) by simp
    show ?thesis
    proof (cases "cellX (cell u) = cellX en \<and> cellY (cell u) = cellY en")
      case True
      then have ue: "cell u = en" using cell_eqI[OF wf cu "1.prems"(4)] by simp
      have res: "whileLoop g mk en queue visited log = Inr (log @ [u], Some (path u, moves u))"
        using Cons True by (subst whileLoop.simps) simp
      have least: "\<forall>w. walk g w \<and> hd w = st \<and> last w = en \<longrightarrow> length (path u) \<le> length w"
        using binv_least[OF inv, of u] Cons ue "1.prems"(5) by auto
      show ?thesis
      proof (intro exI conjI)
        show "whileLoop g mk en queue visited log = Inr (log @ [u], Some (path u, moves u))"
          by (rule res)
        show "\<forall>w. walk g w \<and> hd w = st \<and> last w = en \<longrightarrow> length (path u) \<le> length w"
          by (rule least)
      qed
    next
      case False
      from explore_result[OF wf cu binv_shape[OF inv], of mk directions rest]
      obtain news v' where
        ex: "explore g mk u directions rest visited = Inr (rest @ news, v')"
            "explored g mk u directions visited news v'" by blast
      have inv': "binv g st en (rest @ news) v' (log @ [u])"
        by (rule binv_step[OF wf r0 inv[unfolded Cons] False ex(2)])
      have "whileLoop g mk en queue visited log = whileLoop g mk en (rest @ news) v' (log @ [u])"
        using Cons False ex(1) by (subst whileLoop.simps) auto
      with "1.IH"[OF Cons False ex(1) refl wf r0 inv' "1.prems"(4-8)]
      show ?thesis by simp
    qed
  qed
qed

section \<open>Solving\<close>

lemma synced_wf: "synced s \<Longrightarrow> wf_grid (mazeGrid s)"
  by (simp add: synced_def wf_grid_buildGrid)

lemma synced_row0: "synced s \<Longrightarrow> rows_within_first (maze s) \<Longrightarrow> row0_longest (mazeGrid s)"
  by (simp add: synced_def row0_longest_buildGrid)

lemma find_SomeD: "find P xs = Some c \<Longrightarrow> c \<in> set xs \<and> P c"
  by (auto simp: find_Some_iff)

lemma synced_start: "synced s \<Longrightarrow> start s = Some st \<Longrightarrow> st \<in> set (concat (mazeGrid s)) \<and> cellType st = Start"
  using find_SomeD[of "\<lambda>c. cellType c = Start" "concat (mazeGrid s)" st] by (simp add: synced_def)

lemma synced_end: "synced s \<Longrightarrow> endCell s = Some en \<Longrightarrow> en \<in> set (concat (mazeGrid s)) \<and> cellType en = End"
  using find_SomeD[of "\<lambda>c. cellType c = End" "concat (mazeGrid s)" en] by (simp add: synced_def)

lemma synced_shape: "synced s \<Longrightarrow> shape_ok (mazeGrid s) (map (\<lambda>row. map (\<lambda>_. False) row) (maze s))"
  by (simp add: synced_def shape_ok_def buildGrid_length)

lemma init_unmarked: "\<not> marked (map (\<lambda>row. map (\<lambda>_. False) row) mz) c"
  by (simp add: marked_def visited_get_def)

lemma search_sound:
  assumes sy: "synced s" and st: "start s = Some st" and en: "endCell s = Some en"
  shows "\<exists>log r. search s st en = Inr (log, r) \<and>
           (\<forall>p ms. r = Some (p, ms) \<longrightarrow>
              walk (mazeGrid s) p \<and> hd p = st \<and> last p = en \<and>
              (\<exists>ds. path_directions p = map Some ds \<and> ms = map (getKeyForDirection (moveKeys s)) ds))"
proof -
  let ?g = "mazeGrid s"
  note wf = synced_wf[OF sy]
  from synced_start[OF sy st] have s1: "st \<in> set (concat ?g)" "cellType st \<noteq> Wall" by simp_all
  from synced_end[OF sy en] have e1: "en \<in> set (concat ?g)" by simp
  have ok: "\<forall>e \<in> set [\<lparr>cell = st, path = [st], moves = []\<rparr>]. entry_ok ?g (moveKeys s) st e"
    using entry_ok_init[OF s1] by simp
  from whileLoop_sound[OF wf synced_shape[OF sy] ok, of en "[]"]
  obtain log r where r: "search s st en = Inr (log, r)"
    and rr: "\<And>p ms. r = Some (p, ms) \<Longrightarrow>
              \<exists>e. entry_ok ?g (moveKeys s) st e \<and> p = path e \<and> ms = moves e \<and>
                   cellX (cell e) = cellX en \<and> cellY (cell e) = cellY en"
    unfolding search_def by blast
  have "\<forall>p ms. r = Some (p, ms) \<longrightarrow>
              walk ?g p \<and> hd p = st \<and> last p = en \<and>
              (\<exists>ds. path_directions p = map Some ds \<and> ms = map (getKeyForDirection (moveKeys s)) ds)"
  proof (intro allI impI)
    fix p ms assume "r = Some (p, ms)"
    from rr[OF this] obtain e where e: "entry_ok ?g (moveKeys s) st e" "p = path e" "ms = moves e"
      "cellX (cell e) = cellX en" "cellY (cell e) = cellY en" by blast
    from e(1) have w: "walk ?g (path e)" "hd (path e) = st" "last (path e) = cell e"
      and m: "\<exists>ds. path_directions (path e) = map Some ds \<and> moves e = map (getKeyForDirection (moveKeys s)) ds"
      unfolding entry_ok_def by blast+
    have "cell e \<in> set (concat ?g)" using walk_last[OF w(1)] w(3) by simp
    from cell_eqI[OF wf this e1 e(4,5)] have "cell e = en" .
    with w m e(2,3) show "walk ?g p \<and> hd p = st \<and> last p = en \<and>
              (\<exists>ds. path_directions p = map Some ds \<and> ms = map (getKeyForDirection (moveKeys s)) ds)"
      by simp
  qed
  with r show ?thesis by blast
qed

lemma search_shortest:
  assumes sy: "synced s" and rw: "rows_within_first (maze s)"
    and st: "start s = Some st" and en: "endCell s = Some en"
    and w: "walk (mazeGrid s) w" "hd w = st" "last w = en"
  shows "\<exists>log p ms. search s st en = Inr (log, Some (p, ms)) \<and>
           (\<forall>w'. walk (mazeGrid s) w' \<and> hd w' = st \<and> last w' = en \<longrightarrow> length p \<le> length w')"
proof -
  let ?g = "mazeGrid s"
  let ?v = "map (\<lambda>row. map (\<lambda>_. False) row) (maze s)"
  from synced_start[OF sy st] have s1: "st \<in> set (concat ?g)" "cellType st \<noteq> Wall" "cellType st = Start"
    by simp_all
  from synced_end[OF sy en] have e1: "en \<in> set (concat ?g)" "cellType en = End" by simp_all
  from s1(3) e1(2) have ne: "en \<noteq> st" by auto
  have inv: "binv ?g st en [\<lparr>cell = st, path = [st], moves = []\<rparr>] ?v []"
    by (rule binv_init[OF synced_shape[OF sy] s1(1,2)]) (simp add: init_unmarked)
  from whileLoop_shortest[OF synced_wf[OF sy] synced_row0[OF sy rw] inv e1(1) ne w]
  show ?thesis unfolding search_def .
qed

text \<open>
  Claim C1, amended. In a state whose grid was built from the current text, with no line of
  the text longer than the first (every rectangular maze), whenever End can be reached from
  Start by steps up, down, left and right through cells that are not walls, \<open>solveMaze\<close>
  starts a replay on a path that is such a walk from Start to End, no longer than any other,
  so that its number of steps is the graph distance from Start to End.
\<close>

theorem solveMaze_shortest_path:
  assumes "synced s" "rows_within_first (maze s)" "start s = Some st" "endCell s = Some en"
    and "walk (mazeGrid s) w" "hd w = st" "last w = en"
  shows "\<exists>s' p m. solveMaze s = Inr (s', Found p m) \<and>
           walk (mazeGrid s) p \<and> hd p = st \<and> last p = en \<and>
           (\<forall>w'. walk (mazeGrid s) w' \<and> hd w' = st \<and> last w' = en \<longrightarrow> length p \<le> length w') \<and>
           length p = Suc (distance (mazeGrid s) st en)"
proof -
  from search_shortest[OF assms] obtain log p ms where
    r: "search s st en = Inr (log, Some (p, ms))"
    and least: "\<forall>w'. walk (mazeGrid s) w' \<and> hd w' = st \<and> last w' = en \<longrightarrow> length p \<le> length w'"
    by blast
  from search_sound[OF assms(1,3,4)] r
  have p: "walk (mazeGrid s) p" "hd p = st" "last p = en" by auto
  have sol: "solveMaze s = Inr ((fst (animatePath p s))\<lparr>solutionMoves := concat ms\<rparr>, Found p (concat ms))"
    using r assms(3,4) by (simp add: solveMaze_def)
  from p(1) have "p \<noteq> []" by (rule walk_nonempty)
  then have len: "length p = Suc (length p - 1)" by simp
  have "distance (mazeGrid s) st en = length p - 1"
    unfolding distance_def
  proof (rule Least_equality)
    show "\<exists>w. walk (mazeGrid s) w \<and> hd w = st \<and> last w = en \<and> length w = Suc (length p - 1)"
      using p len by auto
  next
    fix n assume "\<exists>w. walk (mazeGrid s) w \<and> hd w = st \<and> last w = en \<and> length w = Suc n"
    with least show "length p - 1 \<le> n" by fastforce
  qed
  with len have "length p = Suc (distance (mazeGrid s) st en)" by simp
  with sol p least show ?thesis by blast
qed

text \<open>The scenario of the specification: a walk of two steps exists, and the path found has
  at most three cells.\<close>

theorem solveMaze_shortest_path_witness:
  "synced scenario \<and> rows_within_first (maze scenario) \<and>
   start scenario = Some \<lparr>cellX = 1, cellY = 1, cellType = Start\<rparr> \<and>
   endCell scenario = Some \<lparr>cellX = 2, cellY = 2, cellType = End\<rparr> \<and>
   walk (mazeGrid scenario)
     [\<lparr>cellX = 1, cellY = 1, cellType = Start\<rparr>, \<lparr>cellX = 2, cellY = 1, cellType = Path\<rparr>,
      \<lparr>cellX = 2, cellY = 2, cellType = End\<rparr>] \<and>
   (\<exists>s' p m. solveMaze scenario = Inr (s', Found p m) \<and> length p \<le> 3)"
proof -
  let ?w = "[\<lparr>cellX = 1, cellY = 1, cellType = Start\<rparr>, \<lparr>cellX = 2, cellY = 1, cellType = Path\<rparr>,
      \<lparr>cellX = 2, cellY = 2, cellType = End\<rparr>]"
  have h: "synced scenario" "rows_within_first (maze scenario)"
    "start scenario = Some \<lparr>cellX = 1, cellY = 1, cellType = Start\<rparr>"
    "endCell scenario = Some \<lparr>cellX = 2, cellY = 2, cellType = End\<rparr>"
    "walk (mazeGrid scenario) ?w"
    by code_simp+
  from solveMaze_shortest_path[OF h] obtain s' p m where
    "solveMaze scenario = Inr (s', Found p m)"
    "\<forall>w'. walk (mazeGrid scenario) w' \<and> hd w' = \<lparr>cellX = 1, cellY = 1, cellType = Start\<rparr> \<and>
       last w' = \<lparr>cellX = 2, cellY = 2, cellType = End\<rparr> \<longrightarrow> length p \<le> length w'"
    by auto
  with h(5) have "solveMaze scenario = Inr (s', Found p m) \<and> length p \<le> 3"
    by fastforce
  with h show ?thesis by blast
qed

text \<open>
  As first stated the claim fails: in the text with lines \<open>#\<close> and \<open>P.E\<close>, End is
  two steps to the right of Start through cells that are not walls, but the bound on
  moves to the right is the length of the first line, and \<open>solveMaze\<close> ends with "No path
  found!".
\<close>

theorem solveMaze_shortest_path_counterexample:
  "synced ragged \<and>
   start ragged = Some \<lparr>cellX = 0, cellY = 1, cellType = Start\<rparr> \<and>
   endCell ragged = Some \<lparr>cellX = 2, cellY = 1, cellType = End\<rparr> \<and>
   walk (mazeGrid ragged)
     [\<lparr>cellX = 0, cellY = 1, cellType = Start\<rparr>, \<lparr>cellX = 1, cellY = 1, cellType = Path\<rparr>,
      \<lparr>cellX = 2, cellY = 1, cellType = End\<rparr>] \<and>
   solveMaze ragged = Inr (ragged, Alert ''No path found!'')"
  by code_simp

text \<open>
  Claim C4. In a state whose grid was built from the current text, with Start and End
  present and End not reachable from Start, the queue of \<open>solveMaze\<close> runs empty and the call
  ends with the notice "No path found!"; the state (grid, cursor, solution string) is as
  before.
\<close>

theorem solveMaze_no_path:
  assumes "synced s" "start s = Some st" "endCell s = Some en"
    and "\<not> (\<exists>w. walk (mazeGrid s) w \<and> hd w = st \<and> last w = en)"
  shows "solveMaze s = Inr (s, Alert ''No path found!'')"
proof -
  from search_sound[OF assms(1-3)] obtain log r where
    r: "search s st en = Inr (log, r)"
    and rr: "\<forall>p ms. r = Some (p, ms) \<longrightarrow> walk (mazeGrid s) p \<and> hd p = st \<and> last p = en \<and>
              (\<exists>ds. path_directions p = map Some ds \<and> ms = map (getKeyForDirection (moveKeys s)) ds)"
    by blast
  have "r = None"
  proof (cases r)
    case (Some pm)
    obtain p ms where "pm = (p, ms)" by (cases pm)
    with Some rr assms(4) show ?thesis by blast
  qed simp
  with r assms(2,3) show ?thesis by (simp add: solveMaze_def)
qed

text \<open>With a wall between Start and End no walk exists: a walk would make the search return
  a path, and the search returns none.\<close>

theorem solveMaze_no_path_witness:
  "synced walled \<and>
   start walled = Some \<lparr>cellX = 0, cellY = 0, cellType = Start\<rparr> \<and>
   endCell walled = Some \<lparr>cellX = 2, cellY = 0, cellType = End\<rparr> \<and>
   \<not> (\<exists>w. walk (mazeGrid walled) w \<and> hd w = \<lparr>cellX = 0, cellY = 0, cellType = Start\<rparr> \<and>
            last w = \<lparr>cellX = 2, cellY = 0, cellType = End\<rparr>) \<and>
   solveMaze walled = Inr (walled, Alert ''No path found!'')"
proof -
  let ?st = "\<lparr>cellX = 0, cellY = 0, cellType = Start\<rparr>" and ?en = "\<lparr>cellX = 2, cellY = 0, cellType = End\<rparr>"
  have h: "synced walled" "start walled = Some ?st" "endCell walled = Some ?en"
    "rows_within_first (maze walled)"
    by code_simp+
  have none: "map_sum id snd (search walled ?st ?en) = Inr None" by code_simp
  have no: "\<not> (\<exists>w. walk (mazeGrid walled) w \<and> hd w = ?st \<and> last w = ?en)"
  proof
    assume "\<exists>w. walk (mazeGrid walled) w \<and> hd w = ?st \<and> last w = ?en"
    then obtain w where "walk (mazeGrid walled) w" "hd w = ?st" "last w = ?en" by blast
    from search_shortest[OF h(1,4,2,3) this] none show False by auto
  qed
  from solveMaze_no_path[OF h(1-3) no] h(1-3) no show ?thesis by blast
qed

section \<open>The move string\<close>

lemma single_char_key: "single_char_keys mk \<Longrightarrow> length (getKeyForDirection mk d) = 1"
  by (cases d) (simp_all add: single_char_keys_def getKeyForDirection_def)

lemma concat_single_chars:
  "\<forall>d \<in> set ds. length (f d) = 1 \<Longrightarrow>
   length (concat (map f ds)) = length ds \<and> (\<forall>i<length ds. [concat (map f ds) ! i] = f (ds ! i))"
proof (induction ds)
  case Nil
  then show ?case by simp
next
  case (Cons d ds)
  from Cons.prems obtain ch where ch: "f d = [ch]" by (cases "f d") auto
  from Cons have ih: "length (concat (map f ds)) = length ds"
    "\<forall>i<length ds. [concat (map f ds) ! i] = f (ds ! i)" by simp_all
  show ?case
  proof (intro conjI allI impI)
    show "length (concat (map f (d # ds))) = length (d # ds)" using ch ih(1) by simp
  next
    fix i assume "i < length (d # ds)"
    then show "[concat (map f (d # ds)) ! i] = f ((d # ds) ! i)"
      using ch ih(2) by (cases i) auto
  qed
qed

lemma solveMaze_FoundD:
  assumes "solveMaze s = Inr (s', Found p m)"
  shows "\<exists>st en log ms. start s = Some st \<and> endCell s = Some en \<and>
           search s st en = Inr (log, Some (p, ms)) \<and> m = concat ms \<and>
           s' = (fst (animatePath p s))\<lparr>solutionMoves := m\<rparr>"
  using assms by (auto simp: solveMaze_def split: option.splits sum.splits)

text \<open>
  Claim C5, amended. For every successful solve in a state whose grid was built from the
  current text, the path has one direction per step, the direction of the step from each
  cell to the next, and the move string, which is stored as the solution, is the
  concatenation in path order of the strings bound to these directions. When each of the
  four bindings is a single character, the move string has exactly one character per step,
  the i-th being the character bound to the direction of the i-th step.
\<close>

theorem solveMaze_move_string:
  assumes "synced s" "solveMaze s = Inr (s', Found p m)"
  shows "\<exists>ds. length ds + 1 = length p \<and>
           (\<forall>i<length ds. step_direction (p ! i) (p ! Suc i) = Some (ds ! i)) \<and>
           m = concat (map (getKeyForDirection (moveKeys s)) ds) \<and>
           solutionMoves s' = m \<and>
           (single_char_keys (moveKeys s) \<longrightarrow>
              length m = length ds \<and>
              (\<forall>i<length ds. [m ! i] = getKeyForDirection (moveKeys s) (ds ! i)))"
proof -
  from solveMaze_FoundD[OF assms(2)] obtain st en log ms where
    f: "start s = Some st" "endCell s = Some en" "search s st en = Inr (log, Some (p, ms))"
       "m = concat ms" "s' = (fst (animatePath p s))\<lparr>solutionMoves := m\<rparr>" by blast
  from search_sound[OF assms(1) f(1,2)] f(3) obtain ds where
    w: "walk (mazeGrid s) p" and ds: "path_directions p = map Some ds"
    and ms: "ms = map (getKeyForDirection (moveKeys s)) ds" by auto
  from w have "p \<noteq> []" by (rule walk_nonempty)
  moreover have "length ds = length p - 1"
    using arg_cong[OF ds, of length] by (simp add: length_path_directions)
  ultimately have len: "length ds + 1 = length p" by simp
  have steps: "\<forall>i<length ds. step_direction (p ! i) (p ! Suc i) = Some (ds ! i)"
  proof (intro allI impI)
    fix i assume i: "i < length ds"
    with len have "Suc i < length p" by simp
    from nth_path_directions[OF this] ds i show "step_direction (p ! i) (p ! Suc i) = Some (ds ! i)"
      by simp
  qed
  have single: "single_char_keys (moveKeys s) \<longrightarrow>
              length m = length ds \<and>
              (\<forall>i<length ds. [m ! i] = getKeyForDirection (moveKeys s) (ds ! i))"
  proof
    assume "single_char_keys (moveKeys s)"
    then have "\<forall>d \<in> set ds. length (getKeyForDirection (moveKeys s) d) = 1"
      by (simp add: single_char_key)
    from concat_single_chars[OF this] f(4) ms
    show "length m = length ds \<and> (\<forall>i<length ds. [m ! i] = getKeyForDirection (moveKeys s) (ds ! i))"
      by simp
  qed
  have "solutionMoves s' = m" using f(5) by simp
  with len steps single f(4) ms show ?thesis by blast
qed

theorem solveMaze_move_string_witness:
  "synced scenario \<and> single_char_keys (moveKeys scenario) \<and>
   (\<exists>s' p m ds. solveMaze scenario = Inr (s', Found p m) \<and> m = ''sd'' \<and>
      length ds + 1 = length p \<and> length m = length ds \<and>
      m = concat (map (getKeyForDirection (moveKeys scenario)) ds))"
proof -
  have sy: "synced scenario" and sc: "single_char_keys (moveKeys scenario)" by code_simp+
  have "map_sum id snd (solveMaze scenario) =
          Inr (Found [\<lparr>cellX = 1, cellY = 1, cellType = Start\<rparr>, \<lparr>cellX = 1, cellY = 2, cellType = Path\<rparr>,
                      \<lparr>cellX = 2, cellY = 2, cellType = End\<rparr>] ''sd'')"
    by code_simp
  then obtain s' where
    r: "solveMaze scenario =
          Inr (s', Found [\<lparr>cellX = 1, cellY = 1, cellType = Start\<rparr>, \<lparr>cellX = 1, cellY = 2, cellType = Path\<rparr>,
                      \<lparr>cellX = 2, cellY = 2, cellType = End\<rparr>] ''sd'')"
    by (cases "solveMaze scenario") auto
  from solveMaze_move_string[OF sy r] sc r sy show ?thesis by blast
qed

text \<open>
  As first stated the claim fails: after the field of the key for "right" has been
  cleared, the binding is the empty string, and the path of two steps to the right comes
  with an empty move string.
\<close>

theorem solveMaze_move_string_counterexample:
  "synced unbound_right \<and>
   map_sum id snd (solveMaze unbound_right) =
     Inr (Found [\<lparr>cellX = 0, cellY = 0, cellType = Start\<rparr>, \<lparr>cellX = 1, cellY = 0, cellType = Path\<rparr>,
                 \<lparr>cellX = 2, cellY = 0, cellType = End\<rparr>] '''')"
  by code_simp

section \<open>Manual moves on the grid\<close>

text \<open>
  Keys are stored and compared in lower case, accented capitals as well: with the key for
  "up" set to a capital A with grave accent, that key moves the cursor up from End.
\<close>

lemma toLowerCase_latin1:
  "toLowerCase [CHR ''W'', CHR 0xC0, CHR 0xD7, CHR 0xDE, CHR 0xDF, CHR ''w''] =
     [CHR ''w'', CHR 0xE0, CHR 0xD7, CHR 0xFE, CHR 0xDF, CHR ''w'']"
  by code_simp

lemma handleKeyPress_accented_key:
  "up (moveKeys (setMoveKey Up [CHR 0xC0] after_replay)) = [CHR 0xE0] \<and>
   handleKeyPress [CHR 0xC0] (setMoveKey Up [CHR 0xC0] after_replay) =
     Inr ((setMoveKey Up [CHR 0xC0] after_replay)
            \<lparr>currentPos := Some \<lparr>cellX = 2, cellY = 1, cellType = Path\<rparr>\<rparr>)"
  by code_simp

lemma getNextCell_neighbour:
  assumes r0: "row0_longest g" and y: "cellY c < length g"
  shows "getNextCell g c d =
           Inr (case neighbour c d of
                  None \<Rightarrow> None
                | Some (x, y) \<Rightarrow> if y < length g \<and> x < length (g ! y) then Some (g ! y ! x) else None)"
proof -
  from y have ne: "g \<noteq> []" by auto
  have r: "length (g ! cellY c) \<le> length (g ! 0)"
    using r0 y ne by (simp add: row0_longest_def hd_conv_nth)
  show ?thesis
  proof (cases d)
    case Up
    with y show ?thesis by (auto simp: getNextCell_def neighbour_def index2_def Let_def)
  next
    case Down
    with y show ?thesis by (auto simp: getNextCell_def neighbour_def index2_def Let_def)
  next
    case Left
    with y show ?thesis by (auto simp: getNextCell_def neighbour_def index2_def Let_def)
  next
    case Right
    with y ne r show ?thesis by (auto simp: getNextCell_def neighbour_def index2_def Let_def)
  qed
qed

lemma handleKeyPress_refines:
  assumes "synced s" "rows_within_first (maze s)" "cursor_row_in_grid s"
  shows "handleKeyPress k s = Inr (manualMove_spec k s)"
proof (cases "isAnimating s")
  case True
  then show ?thesis by (simp add: handleKeyPress_def manualMove_spec_def)
next
  case False
  show ?thesis
  proof (cases "keyDirection (moveKeys s) (toLowerCase k)")
    case None
    with False show ?thesis by (simp add: handleKeyPress_def manualMove_spec_def)
  next
    case (Some d)
    show ?thesis
    proof (cases "currentPos s")
      case None
      with False Some show ?thesis by (simp add: handleKeyPress_def manualMove_spec_def)
    next
      case cur: (Some c)
      with assms(3) have c: "cellY c < length (mazeGrid s)" by (simp add: cursor_row_in_grid_def)
      note nx = getNextCell_neighbour[OF synced_row0[OF assms(1,2)] c, of d]
      show ?thesis
        using False Some cur nx
        by (auto simp: handleKeyPress_def manualMove_spec_def split: option.splits)
    qed
  qed
qed

lemma manualMove_spec_cases:
  "manualMove_spec k s = s \<or>
   (\<exists>c. manualMove_spec k s = s\<lparr>currentPos := Some c\<rparr> \<and> c \<in> set (concat (mazeGrid s)) \<and>
        cellType c \<noteq> Wall)"
proof (cases "manualMove_spec k s = s")
  case True
  then show ?thesis by simp
next
  case False
  then obtain x y where xy: "y < length (mazeGrid s)" "x < length (mazeGrid s ! y)"
    "cellType (mazeGrid s ! y ! x) \<noteq> Wall"
    "manualMove_spec k s = s\<lparr>currentPos := Some (mazeGrid s ! y ! x)\<rparr>"
    by (auto simp: manualMove_spec_def split: option.splits if_splits)
  from nth_in_concat[OF xy(1,2)] xy(3,4) show ?thesis by blast
qed

lemma manualMove_spec_synced: "synced s \<Longrightarrow> synced (manualMove_spec k s)"
  using manualMove_spec_cases[of k s] by (auto simp: synced_def)

lemma manualMove_spec_maze: "maze (manualMove_spec k s) = maze s"
  using manualMove_spec_cases[of k s] by auto

lemma manualMove_spec_row:
  assumes "synced s" "cursor_row_in_grid s" shows "cursor_row_in_grid (manualMove_spec k s)"
  using manualMove_spec_cases[of k s]
proof (elim disjE exE conjE)
  assume "manualMove_spec k s = s"
  with assms show ?thesis by simp
next
  fix c assume c: "manualMove_spec k s = s\<lparr>currentPos := Some c\<rparr>" "c \<in> set (concat (mazeGrid s))"
  from cell_at[OF synced_wf[OF assms(1)] c(2)] c(1) show ?thesis
    by (simp add: cursor_row_in_grid_def)
qed

lemma handleKeyPresses_refines:
  "synced s \<Longrightarrow> rows_within_first (maze s) \<Longrightarrow> cursor_row_in_grid s \<Longrightarrow>
   handleKeyPresses ks s = (fold manualMove_spec ks s, [])"
proof (induction ks arbitrary: s)
  case Nil
  then show ?case by simp
next
  case (Cons k ks)
  have "handleKeyPresses ks (manualMove_spec k s) = (fold manualMove_spec ks (manualMove_spec k s), [])"
    using Cons.prems
    by (intro Cons.IH manualMove_spec_synced manualMove_spec_row) (simp_all add: manualMove_spec_maze)
  with handleKeyPress_refines[OF Cons.prems] show ?case by simp
qed

lemma handleKeyPress_cases:
  assumes "handleKeyPress k s = Inr s'"
  shows "s' = s \<or>
         (\<exists>c. s' = s\<lparr>currentPos := Some c\<rparr> \<and> c \<in> set (concat (mazeGrid s)) \<and> cellType c \<noteq> Wall)"
proof (cases "s' = s")
  case True
  then show ?thesis by simp
next
  case False
  with assms obtain cur d c where c: "getNextCell (mazeGrid s) cur d = Inr (Some c)"
    "cellType c \<noteq> Wall" "s' = s\<lparr>currentPos := Some c\<rparr>"
    by (auto simp: handleKeyPress_def split: if_splits option.splits sum.splits)
  from getNextCell_in_grid[OF c(1)] c(2,3) show ?thesis by blast
qed

lemma handleKeyPresses_safe:
  "mazeGrid (fst (handleKeyPresses ks s)) = mazeGrid s \<and>
   (currentPos (fst (handleKeyPresses ks s)) = currentPos s \<or> cursor_safe (fst (handleKeyPresses ks s)))"
proof (induction ks arbitrary: s)
  case Nil
  then show ?case by simp
next
  case (Cons k ks)
  show ?case
  proof (cases "handleKeyPress k s")
    case (Inl err)
    then have "fst (handleKeyPresses (k # ks) s) = fst (handleKeyPresses ks s)"
      by (simp split: prod.splits)
    with Cons.IH[of s] show ?thesis by simp
  next
    case (Inr s1)
    then have eq: "fst (handleKeyPresses (k # ks) s) = fst (handleKeyPresses ks s1)" by simp
    let ?t = "fst (handleKeyPresses ks s1)"
    from Cons.IH[of s1] have ih: "mazeGrid ?t = mazeGrid s1"
      "currentPos ?t = currentPos s1 \<or> cursor_safe ?t" by simp_all
    from handleKeyPress_cases[OF Inr] have "mazeGrid ?t = mazeGrid s \<and>
      (currentPos ?t = currentPos s \<or> cursor_safe ?t)"
    proof (elim disjE exE conjE)
      assume "s1 = s"
      with ih show ?thesis by simp
    next
      fix c assume c: "s1 = s\<lparr>currentPos := Some c\<rparr>" "c \<in> set (concat (mazeGrid s))"
        "cellType c \<noteq> Wall"
      from ih(2) have "cursor_safe ?t"
      proof
        assume "currentPos ?t = currentPos s1"
        with c ih(1) show ?thesis by (simp add: cursor_safe_def)
      qed
      with c(1) ih(1) show ?thesis by simp
    qed
    with eq show ?thesis by simp
  qed
qed

text \<open>
  Claim C8, amended. For every grid and every sequence of key events, the grid is
  unchanged and the cursor is where it was or on a cell of the grid that is not a wall,
  also when a handler throws. In a state whose grid was built from the current text, with
  no line of the text longer than the first and the cursor unset or in a row of the grid,
  no handler throws and every event does what \<open>manualMove\<close> says: nothing while a replay
  is animating; otherwise the neighbour in the direction of the key becomes the current
  position when it is within the grid and not a wall, and the position is unchanged when
  it is a wall, out of bounds, or the key is bound to no direction.
\<close>

theorem handleKeyPresses_manual_moves:
  "mazeGrid (fst (handleKeyPresses keys s)) = mazeGrid s \<and>
   (currentPos (fst (handleKeyPresses keys s)) = currentPos s \<or>
    cursor_safe (fst (handleKeyPresses keys s))) \<and>
   (synced s \<and> rows_within_first (maze s) \<and> cursor_row_in_grid s \<longrightarrow>
      handleKeyPresses keys s = (fold manualMove_spec keys s, []))"
  using handleKeyPresses_safe[of keys s] handleKeyPresses_refines[of s keys] by blast

text \<open>After the replay of the scenario, with the cursor on End: up, left, up against the
  wall, and a key bound to nothing.\<close>

theorem handleKeyPresses_manual_moves_witness:
  "synced after_replay \<and> rows_within_first (maze after_replay) \<and> cursor_row_in_grid after_replay \<and>
   currentPos after_replay = Some \<lparr>cellX = 2, cellY = 2, cellType = End\<rparr> \<and>
   handleKeyPresses [''w'', ''A'', ''w'', ''x''] after_replay =
     (after_replay\<lparr>currentPos := Some \<lparr>cellX = 1, cellY = 1, cellType = Start\<rparr>\<rparr>, []) \<and>
   cursor_safe (after_replay\<lparr>currentPos := Some \<lparr>cellX = 1, cellY = 1, cellType = Start\<rparr>\<rparr>)"
proof -
  have h: "synced after_replay \<and> rows_within_first (maze after_replay) \<and> cursor_row_in_grid after_replay"
    by code_simp
  have c: "currentPos after_replay = Some \<lparr>cellX = 2, cellY = 2, cellType = End\<rparr>" by code_simp
  have f: "fold manualMove_spec [''w'', ''A'', ''w'', ''x''] after_replay =
          after_replay\<lparr>currentPos := Some \<lparr>cellX = 1, cellY = 1, cellType = Start\<rparr>\<rparr>"
    by code_simp
  from handleKeyPresses_manual_moves[of "[''w'', ''A'', ''w'', ''x'']" after_replay] h f
  have r: "handleKeyPresses [''w'', ''A'', ''w'', ''x''] after_replay =
          (after_replay\<lparr>currentPos := Some \<lparr>cellX = 1, cellY = 1, cellType = Start\<rparr>\<rparr>, [])"
    by simp
  with handleKeyPresses_manual_moves[of "[''w'', ''A'', ''w'', ''x'']" after_replay] c
  have "cursor_safe (after_replay\<lparr>currentPos := Some \<lparr>cellX = 1, cellY = 1, cellType = Start\<rparr>\<rparr>)"
    by auto
  with h c r show ?thesis by simp
qed

text \<open>
  As first stated the claim fails in two ways. In the text with lines \<open>PE\<close> and \<open>....\<close>,
  with the cursor on the second cell of the second line and no replay in progress, the key
  for "right" leaves the cursor where it is, although the cell to the right is within the
  grid and is not a wall. And when the text is replaced by the one line \<open>P.E\<close> after a
  replay has left the cursor in the third row, the grid is rectangular and no replay is in
  progress, but the handler of the key for "up" throws a \<open>TypeError\<close>.
\<close>

theorem handleKeyPresses_manual_moves_counterexample:
  "synced uneven_cursor \<and> \<not> isAnimating uneven_cursor \<and>
   currentPos uneven_cursor = Some \<lparr>cellX = 1, cellY = 1, cellType = Path\<rparr> \<and>
   keyDirection (moveKeys uneven_cursor) (toLowerCase ''d'') = Some Right \<and>
   1 < length (mazeGrid uneven_cursor) \<and> 2 < length (mazeGrid uneven_cursor ! 1) \<and>
   mazeGrid uneven_cursor ! 1 ! 2 = \<lparr>cellX = 2, cellY = 1, cellType = Path\<rparr> \<and>
   handleKeyPress ''d'' uneven_cursor = Inr uneven_cursor \<and>
   synced stale_cursor \<and> rows_within_first (maze stale_cursor) \<and> \<not> isAnimating stale_cursor \<and>
   maze stale_cursor = [''P.E''] \<and>
   currentPos stale_cursor = Some \<lparr>cellX = 2, cellY = 2, cellType = End\<rparr> \<and>
   keyDirection (moveKeys stale_cursor) (toLowerCase ''w'') = Some Up \<and>
   handleKeyPress ''w'' stale_cursor = Inl TypeError"
  by code_simp

section \<open>The states the component reaches\<close>

text \<open>
  The hypothesis \<open>synced\<close> of the theorems holds in the initial state and after every
  event: the effect rebuilds the grid after every change of the text or of a symbol it
  depends on, and no other handler touches the text, the symbols, the grid or the
  designated cells.
\<close>

lemma initialState_synced: "synced initialState"
  by (simp add: initialState_def synced_def buildGrid_def)

lemma gridEffect_synced: "maze s \<noteq> [] \<Longrightarrow> synced (gridEffect s)"
  by (simp add: gridEffect_def synced_def Let_def)

lemma split_newline_nonempty: "split_newline t \<noteq> []"
  by (induction t) (auto split: list.splits)

lemma handleMazeInput_synced: "synced (handleMazeInput t s)"
  by (simp add: handleMazeInput_def gridEffect_synced split_newline_nonempty)

lemma setMoveKey_synced: "synced s \<Longrightarrow> synced (setMoveKey d v s)"
  by (simp add: setMoveKey_def synced_def Let_def)

lemma animatePath_resume_synced: "synced s \<Longrightarrow> synced (fst (animatePath_resume cs s))"
  by (cases cs) (simp_all add: synced_def)

lemma solveMaze_synced:
  assumes "synced s" "solveMaze s = Inr (s', out)"
  shows "synced s'"
proof -
  have "synced (s\<lparr>isAnimating := True\<rparr>)" using assms(1) by (simp add: synced_def)
  then have "\<And>p. synced (fst (animatePath p s))"
    unfolding animatePath_def by (rule animatePath_resume_synced)
  then have "\<And>p m. synced ((fst (animatePath p s))\<lparr>solutionMoves := m\<rparr>)"
    by (simp add: synced_def)
  with assms show ?thesis
    by (auto simp: solveMaze_def split: option.splits sum.splits)
qed

lemma handleKeyPress_synced:
  assumes "synced s" "handleKeyPress k s = Inr s'"
  shows "synced s'"
  using handleKeyPress_cases[OF assms(2)] assms(1) by (auto simp: synced_def)

lemma symbol_synced:
  assumes "synced s"
  shows "synced (setWallSymbol v s)" "synced (setStartSymbol v s)" "synced (setEndSymbol v s)"
    "synced (setPathSymbol v s)"
proof -
  have e: "\<And>t. maze t = [] \<Longrightarrow> mazeGrid t = [] \<Longrightarrow> start t = None \<Longrightarrow> endCell t = None \<Longrightarrow> synced (gridEffect t)"
    by (simp add: gridEffect_def synced_def buildGrid_def)
  have n: "maze s = [] \<Longrightarrow> mazeGrid s = [] \<and> start s = None \<and> endCell s = None"
    using assms by (simp add: synced_def buildGrid_def)
  show "synced (setWallSymbol v s)"
    by (cases "maze s = []") (simp_all add: setWallSymbol_def gridEffect_synced e n)
  show "synced (setStartSymbol v s)"
    by (cases "maze s = []") (simp_all add: setStartSymbol_def gridEffect_synced e n)
  show "synced (setEndSymbol v s)"
    by (cases "maze s = []") (simp_all add: setEndSymbol_def gridEffect_synced e n)
  show "synced (setPathSymbol v s)"
    using assms by (simp add: setPathSymbol_def synced_def)
qed

lemma fire_synced: "synced (fst ss) \<Longrightarrow> synced (fst (fire ev ss))"
proof -
  assume sy: "synced (fst ss)"
  obtain s pend where ss: "ss = (s, pend)" by (cases ss)
  show ?thesis
  proof (cases ev)
    case SolveClick
    show ?thesis
    proof (cases "solveMaze s")
      case (Inl err)
      with SolveClick ss sy show ?thesis by simp
    next
      case (Inr r)
      obtain s' out where r: "r = (s', out)" by (cases r)
      from solveMaze_synced[OF _ Inr[unfolded r]] sy ss have "synced s'" by simp
      with SolveClick ss Inr r show ?thesis by (cases out) simp_all
    qed
  next
    case (Timer k)
    from animatePath_resume_synced[of s "pend ! k"] sy ss Timer show ?thesis
      by (auto split: prod.splits option.splits)
  next
    case (KeyDown key)
    with ss sy handleKeyPress_synced[of s key] show ?thesis by (auto split: sum.splits)
  next
    case (MazeInput v)
    with ss show ?thesis by (simp add: handleMazeInput_synced)
  next
    case (WallSymbolInput v)
    with ss sy show ?thesis by (simp add: symbol_synced)
  next
    case (PathSymbolInput v)
    with ss sy show ?thesis by (simp add: symbol_synced)
  next
    case (StartSymbolInput v)
    with ss sy show ?thesis by (simp add: symbol_synced)
  next
    case (EndSymbolInput v)
    with ss sy show ?thesis by (simp add: symbol_synced)
  next
    case (MoveKeyInput d v)
    with ss sy show ?thesis by (simp add: setMoveKey_synced)
  qed
qed

lemma run_synced: "synced (fst (fold fire evs (initialState, [])))"
proof -
  have "\<And>ss. synced (fst ss) \<Longrightarrow> synced (fst (fold fire evs ss))"
    by (induction evs) (simp_all add: fire_synced)
  then show ?thesis by (simp add: initialState_synced)
qed

section \<open>The animating flag\<close>

lemma handleKeyPress_while_animating: "isAnimating s \<Longrightarrow> handleKeyPress k s = Inr s"
  by (simp add: handleKeyPress_def)

text \<open>
  Claim C9, evaluated in the middle of a replay of the scenario: the animating flag is set
  and the cursor is on the second cell of the path. A key press changes nothing, but
  \<open>solveMaze\<close> searches again, starts a second replay and puts the cursor back on Start.
\<close>

theorem solveMaze_while_animating:
  "isAnimating mid_replay \<and>
   currentPos mid_replay = Some \<lparr>cellX = 1, cellY = 2, cellType = Path\<rparr> \<and>
   handleKeyPress ''d'' mid_replay = Inr mid_replay \<and>
   map_sum id (\<lambda>(s', out). (currentPos s', out)) (solveMaze mid_replay) =
     Inr (Some \<lparr>cellX = 1, cellY = 1, cellType = Start\<rparr>,
          Found [\<lparr>cellX = 1, cellY = 1, cellType = Start\<rparr>, \<lparr>cellX = 1, cellY = 2, cellType = Path\<rparr>,
                 \<lparr>cellX = 2, cellY = 2, cellType = End\<rparr>] ''sd'')"
  by code_simp

section \<open>Replays in flight\<close>

text \<open>
  Key presses and changes of the text, the symbols or the keys do not disturb a replay: as
  long as the solve button is not clicked again, the only replay in flight keeps the
  animating flag set and the cursor on the cell it applied last.
\<close>

lemma gridEffect_cursor: "currentPos (gridEffect s) = currentPos s \<and> isAnimating (gridEffect s) = isAnimating s"
  by (simp add: gridEffect_def Let_def)

lemma tracking_fire:
  assumes "tracking cs n ss" "ev \<noteq> SolveClick"
  shows "tracking cs n (fire ev ss) \<or> tracking cs (Suc n) (fire ev ss) \<or>
         (n = length cs \<and> fire ev ss = ((fst ss)\<lparr>isAnimating := False\<rparr>, []))"
proof -
  obtain s pend where ss: "ss = (s, pend)" by (cases ss)
  from assms(1) ss have t: "pend = [drop n cs]" "0 < n" "n \<le> length cs" "isAnimating s"
    "currentPos s = Some (cs ! (n - 1))" by (simp_all add: tracking_def)
  show ?thesis
  proof (cases ev)
    case SolveClick
    with assms(2) show ?thesis by simp
  next
    case (Timer k)
    show ?thesis
    proof (cases "k = 0")
      case False
      with Timer ss t assms(1) show ?thesis by simp
    next
      case True
      show ?thesis
      proof (cases "n = length cs")
        case True
        with \<open>k = 0\<close> Timer ss t show ?thesis by simp
      next
        case False
        with t(3) have lt: "n < length cs" by simp
        then have "drop n cs = cs ! n # drop (Suc n) cs" by (simp add: Cons_nth_drop_Suc)
        with \<open>k = 0\<close> Timer ss t lt have "tracking cs (Suc n) (fire ev ss)"
          by (simp add: tracking_def)
        then show ?thesis by simp
      qed
    qed
  next
    case (KeyDown key)
    with ss t assms(1) show ?thesis by (simp add: handleKeyPress_def)
  next
    case (MazeInput v)
    with ss t show ?thesis by (simp add: tracking_def handleMazeInput_def gridEffect_cursor)
  next
    case (WallSymbolInput v)
    with ss t show ?thesis by (simp add: tracking_def setWallSymbol_def gridEffect_cursor)
  next
    case (PathSymbolInput v)
    with ss t show ?thesis by (simp add: tracking_def setPathSymbol_def)
  next
    case (StartSymbolInput v)
    with ss t show ?thesis by (simp add: tracking_def setStartSymbol_def gridEffect_cursor)
  next
    case (EndSymbolInput v)
    with ss t show ?thesis by (simp add: tracking_def setEndSymbol_def gridEffect_cursor)
  next
    case (MoveKeyInput d v)
    with ss t show ?thesis by (simp add: tracking_def setMoveKey_def Let_def)
  qed
qed

lemma tracking_run:
  "tracking cs n ss \<Longrightarrow> SolveClick \<notin> set evs \<Longrightarrow> snd (fold fire evs ss) = [[]] \<Longrightarrow>
   tracking cs (length cs) (fold fire evs ss)"
proof (induction evs arbitrary: n ss)
  case Nil
  then have "drop n cs = []" "n \<le> length cs" by (simp_all add: tracking_def)
  then have "n = length cs" by simp
  with Nil show ?case by simp
next
  case (Cons ev evs)
  from Cons.prems(2) have ev: "ev \<noteq> SolveClick" and evs: "SolveClick \<notin> set evs" by auto
  have nosolve_empty: "\<And>s. snd (fold fire evs (s, [])) = []"
    using evs
  proof (induction evs)
    case Nil
    then show ?case by simp
  next
    case (Cons e es)
    then show ?case by (cases e) (auto split: sum.splits)
  qed
  from tracking_fire[OF Cons.prems(1) ev] show ?case
  proof (elim disjE conjE)
    assume "tracking cs n (fire ev ss)"
    from Cons.IH[OF this evs] Cons.prems(3) show ?thesis by simp
  next
    assume "tracking cs (Suc n) (fire ev ss)"
    from Cons.IH[OF this evs] Cons.prems(3) show ?thesis by simp
  next
    assume "fire ev ss = ((fst ss)\<lparr>isAnimating := False\<rparr>, [])"
    with nosolve_empty[of "(fst ss)\<lparr>isAnimating := False\<rparr>"] Cons.prems(3) show ?thesis by simp
  qed
qed

text \<open>
  So the replay that a successful solve starts, when the solve button is not clicked again
  before it has applied its last cell, has the cursor on the End cell of the solve, and
  its last resumption only clears the animating flag.
\<close>

lemma solo_replay_ends_on_End:
  assumes "synced s" "solveMaze s = Inr (s1, Found p m)" "SolveClick \<notin> set evs"
    and "fold fire evs (fire SolveClick (s, [])) = (s2, [[]])"
  shows "currentPos s2 = endCell s \<and> fire (Timer 0) (s2, [[]]) = (s2\<lparr>isAnimating := False\<rparr>, [])"
proof -
  from solveMaze_FoundD[OF assms(2)] obtain st en log ms where
    f: "start s = Some st" "endCell s = Some en" "search s st en = Inr (log, Some (p, ms))"
       "s1 = (fst (animatePath p s))\<lparr>solutionMoves := m\<rparr>" by blast
  from search_sound[OF assms(1) f(1,2)] f(3) have w: "walk (mazeGrid s) p" "last p = en" by auto
  from w(1) obtain c cs where p: "p = c # cs" by (cases p) auto
  have fired: "fire SolveClick (s, []) = (s1, [cs])"
    using assms(2) p by (simp add: animatePath_def)
  have "tracking p 1 (s1, [cs])"
    using f(4) p by (simp add: tracking_def animatePath_def)
  from tracking_run[OF this assms(3)] assms(4) fired
  have "tracking p (length p) (s2, [[]])" by simp
  then have "currentPos s2 = Some (p ! (length p - 1))" by (simp add: tracking_def)
  also have "p ! (length p - 1) = last p" using p by (simp add: last_conv_nth)
  finally have "currentPos s2 = endCell s" using w(2) f(2) by simp
  then show ?thesis by simp
qed

text \<open>
  Claim C10, evaluated on two runs in which the solve button is clicked while a replay is
  in flight. In the first, on the scenario, the first replay has applied its three cells
  and finished: the cursor is not on End but on Start, where the second replay put it, and
  the animating flag is cleared although the second replay has two cells to apply. In the
  second, the text is replaced by a shorter maze before the second click: when both
  replays have finished, the cursor is on the last cell of the first path, at (4,0),
  outside the grid, whose End is at (1,0).
\<close>

theorem replay_disturbed_by_second_solve:
  "map_prod (\<lambda>s. (currentPos s, isAnimating s, endCell s)) id
     (fold fire second_solve (initialState, [])) =
     ((Some \<lparr>cellX = 1, cellY = 1, cellType = Start\<rparr>, False,
       Some \<lparr>cellX = 2, cellY = 2, cellType = End\<rparr>),
      [[\<lparr>cellX = 1, cellY = 2, cellType = Path\<rparr>, \<lparr>cellX = 2, cellY = 2, cellType = End\<rparr>]]) \<and>
   map_prod (\<lambda>s. (maze s, currentPos s, isAnimating s, endCell s)) id
     (fold fire edit_and_solve (initialState, [])) =
     (([''PE''], Some \<lparr>cellX = 4, cellY = 0, cellType = End\<rparr>, False,
       Some \<lparr>cellX = 1, cellY = 0, cellType = End\<rparr>), [])"
  by code_simp

section \<open>Visited marks\<close>

text \<open>
  Claim C2, evaluated on the maze \<open>P.E\<close>: the start cell enters the queue unmarked, is
  marked and pushed again as the left neighbour of the second cell, and is taken from the
  queue twice.
\<close>

theorem search_expands_start_twice:
  "start line_maze = Some \<lparr>cellX = 0, cellY = 0, cellType = Start\<rparr> \<and>
   endCell line_maze = Some \<lparr>cellX = 2, cellY = 0, cellType = End\<rparr> \<and>
   map_sum id (\<lambda>(log, r). map cell log)
     (search line_maze \<lparr>cellX = 0, cellY = 0, cellType = Start\<rparr> \<lparr>cellX = 2, cellY = 0, cellType = End\<rparr>) =
     Inr [\<lparr>cellX = 0, cellY = 0, cellType = Start\<rparr>, \<lparr>cellX = 1, cellY = 0, cellType = Path\<rparr>,
          \<lparr>cellX = 0, cellY = 0, cellType = Start\<rparr>, \<lparr>cellX = 2, cellY = 0, cellType = End\<rparr>]"
  by code_simp

end
